theory Spec2Isabelle
  imports Complex_Main "HOL-Library.Sublist"
begin

chapter \<open>The model\<close>

section \<open>JavaScript values and the object store\<close>

text \<open>
  The libraries work on plain JavaScript data. Objects, arrays and dates are mutable
  and compared by reference, so they live in an explicit store: a list of cells whose
  index is the address of the object. Allocation appends a cell.

  A number is either finite or \<open>NaN\<close>; finite numbers are taken to be integers, which is
  enough for \<open>===\<close>: among numbers only \<open>NaN\<close> is different from itself.
  A property key is either an array index or a name; \<open>Name s\<close> stands for a key that is
  not a canonical array index. Property reads see own properties only (and \<open>length\<close> of
  arrays and strings): nothing inherited from a prototype is modelled. A function is
  opaque: it has an identity and no properties.
\<close>

type_synonym addr = nat

datatype num = Fin int | NaN

datatype pkey = Idx nat | Name string

datatype val =
    Undefined
  | Null
  | Bool bool
  | Num num
  | Str string
  | Fn nat
  | Ref addr

datatype obj =
    Object "(pkey \<times> val) list"
  | Array "val list"
  | Date num

type_synonym heap = "obj list"

datatype exn = JsError string string | ThrownString string

definition lookup :: "heap \<Rightarrow> addr \<Rightarrow> obj option" where
  "lookup h a = (if a < length h then Some (h ! a) else None)"

definition alloc :: "heap \<Rightarrow> obj \<Rightarrow> val \<times> heap" where
  "alloc h ob = (Ref (length h), h @ [ob])"

definition stack_overflow :: exn where
  "stack_overflow = JsError ''RangeError'' ''Maximum call stack size exceeded''"

definition dangling :: exn where
  "dangling = JsError ''ReferenceError'' ''no such object''"

definition no_property_of :: exn where
  "no_property_of = JsError ''TypeError'' ''Cannot read properties of undefined or null''"

text \<open>\<open>a === b\<close>: primitives by value (\<open>NaN\<close> never), objects and functions by identity.\<close>

fun strict_eq :: "val \<Rightarrow> val \<Rightarrow> bool" where
  "strict_eq (Num NaN) _ = False"
| "strict_eq _ (Num NaN) = False"
| "strict_eq a b = (a = b)"

text \<open>\<open>!a\<close>: the falsy values.\<close>

fun falsy :: "val \<Rightarrow> bool" where
  "falsy Undefined = True"
| "falsy Null = True"
| "falsy (Bool b) = (\<not> b)"
| "falsy (Num NaN) = True"
| "falsy (Num (Fin i)) = (i = 0)"
| "falsy (Str s) = (s = [])"
| "falsy (Fn _) = False"
| "falsy (Ref _) = False"

text \<open>\<open>typeof a === 'object'\<close> (which holds for \<open>null\<close> too).\<close>

fun typeof_object :: "val \<Rightarrow> bool" where
  "typeof_object Null = True"
| "typeof_object (Ref _) = True"
| "typeof_object _ = False"

section \<open>JSON round trip\<close>

text \<open>
  \<open>JSON.stringify\<close> reads the store and produces a text, here the document tree the
  text denotes; \<open>JSON.parse\<close> builds fresh objects from it. \<open>stringify\<close> returns
  \<open>None\<close> where JavaScript returns \<open>undefined\<close> (the value is left out by the caller).
  The list of addresses is the stack of objects being serialised, by which a cycle is
  detected; the first argument bounds the depth of the call stack. The text of a date is
  left to the platform (\<open>fmt\<close>, for \<open>toISOString\<close>). Objects with a \<open>toJSON\<close> method of their own are not
  modelled.
\<close>

datatype json =
    JNull
  | JBool bool
  | JNum int
  | JStr string
  | JArr "json list"
  | JObj "(pkey \<times> json) list"

definition circular :: exn where
  "circular = JsError ''TypeError'' ''Converting circular structure to JSON''"

fun traverse :: "('a \<Rightarrow> exn + 'b) \<Rightarrow> 'a list \<Rightarrow> exn + 'b list" where
  "traverse f [] = Inr []"
| "traverse f (x # xs) =
     (case f x of
        Inl e \<Rightarrow> Inl e
      | Inr y \<Rightarrow> (case traverse f xs of Inl e \<Rightarrow> Inl e | Inr ys \<Rightarrow> Inr (y # ys)))"

definition elem_json :: "json option \<Rightarrow> json" where
  "elem_json r = (case r of None \<Rightarrow> JNull | Some j \<Rightarrow> j)"

definition field_json :: "(pkey \<times> json option) list \<Rightarrow> (pkey \<times> json) list" where
  "field_json rs = concat (map (\<lambda>(k, r). case r of None \<Rightarrow> [] | Some j \<Rightarrow> [(k, j)]) rs)"

fun stringify :: "(int \<Rightarrow> string) \<Rightarrow> nat \<Rightarrow> heap \<Rightarrow> addr list \<Rightarrow> val \<Rightarrow> exn + json option" where
  "stringify fmt n h st Undefined = Inr None"
| "stringify fmt n h st (Fn f) = Inr None"
| "stringify fmt n h st Null = Inr (Some JNull)"
| "stringify fmt n h st (Bool b) = Inr (Some (JBool b))"
| "stringify fmt n h st (Num NaN) = Inr (Some JNull)"
| "stringify fmt n h st (Num (Fin i)) = Inr (Some (JNum i))"
| "stringify fmt n h st (Str s) = Inr (Some (JStr s))"
| "stringify fmt 0 h st (Ref a) = Inl stack_overflow"
| "stringify fmt (Suc n) h st (Ref a) =
     (if a \<in> set st then Inl circular
      else case lookup h a of
        None \<Rightarrow> Inl dangling
      | Some (Date NaN) \<Rightarrow> Inr (Some JNull)
      | Some (Date (Fin t)) \<Rightarrow> Inr (Some (JStr (fmt t)))
      | Some (Array xs) \<Rightarrow>
          (case traverse (stringify fmt n h (a # st)) xs of
             Inl e \<Rightarrow> Inl e
           | Inr rs \<Rightarrow> Inr (Some (JArr (map elem_json rs))))
      | Some (Object kvs) \<Rightarrow>
          (case traverse (\<lambda>(k, v). case stringify fmt n h (a # st) v of
                                     Inl e \<Rightarrow> Inl e | Inr r \<Rightarrow> Inr (k, r)) kvs of
             Inl e \<Rightarrow> Inl e
           | Inr rs \<Rightarrow> Inr (Some (JObj (field_json rs)))))"

fun parse :: "json \<Rightarrow> heap \<Rightarrow> val \<times> heap"
  and parse_elems :: "json list \<Rightarrow> heap \<Rightarrow> val list \<times> heap"
  and parse_fields :: "(pkey \<times> json) list \<Rightarrow> heap \<Rightarrow> (pkey \<times> val) list \<times> heap" where
  "parse JNull h = (Null, h)"
| "parse (JBool b) h = (Bool b, h)"
| "parse (JNum i) h = (Num (Fin i), h)"
| "parse (JStr s) h = (Str s, h)"
| "parse (JArr js) h = (case parse_elems js h of (vs, h1) \<Rightarrow> alloc h1 (Array vs))"
| "parse (JObj fs) h = (case parse_fields fs h of (kvs, h1) \<Rightarrow> alloc h1 (Object kvs))"
| "parse_elems [] h = ([], h)"
| "parse_elems (j # js) h =
     (case parse j h of (v, h1) \<Rightarrow> case parse_elems js h1 of (vs, h2) \<Rightarrow> (v # vs, h2))"
| "parse_fields [] h = ([], h)"
| "parse_fields ((k, j) # fs) h =
     (case parse j h of (v, h1) \<Rightarrow> case parse_fields fs h1 of (kvs, h2) \<Rightarrow> ((k, v) # kvs, h2))"

definition not_json :: exn where
  "not_json = JsError ''SyntaxError'' ''undefined is not valid JSON''"

text \<open>What the platform provides: the text of a date and the depth of the call stack.\<close>

record platform =
  toISOString :: "int \<Rightarrow> string"
  stack_depth :: nat

section \<open>The history log of the store tester\<close>

text \<open>
  \<open>StateHistoryImpl\<close>: the entries and the cursor. A slot of the array is \<open>None\<close> where
  JavaScript has \<open>undefined\<close>. The cursor and the argument of \<open>goToIndex\<close> are JavaScript
  numbers, whole or not: a finite number is a rational here, and the cursor is always
  finite. The timestamp \<open>Date.now()\<close> is an argument. A method that can throw returns
  the exception beside the state it leaves behind.
\<close>

record entry =
  state :: val
  timestamp :: int
  label :: "string option"

record history =
  states :: "entry option list"
  currentIndex :: rat

datatype number = Finite rat | PlusInfinity | MinusInfinity | NotANumber

text \<open>\<open>JSON.parse(JSON.stringify(state))\<close>\<close>

definition cloneState :: "platform \<Rightarrow> heap \<Rightarrow> val \<Rightarrow> exn + val \<times> heap" where
  "cloneState P h v =
     (case stringify (toISOString P) (stack_depth P) h [] v of
        Inl e \<Rightarrow> Inl e
      | Inr None \<Rightarrow> Inl not_json
      | Inr (Some j) \<Rightarrow> Inr (parse j h))"

text \<open>
  \<open>xs.slice(0, e)\<close>: the end is made a whole number by dropping its fraction, a
  negative end counts from the end of the array, and the result stays within the array.
\<close>

definition to_integer :: "rat \<Rightarrow> int" where
  "to_integer r = (if r < 0 then \<lceil>r\<rceil> else \<lfloor>r\<rfloor>)"

definition slice0 :: "'a list \<Rightarrow> rat \<Rightarrow> 'a list" where
  "slice0 xs e =
     (if to_integer e < 0 then take (nat (int (length xs) + to_integer e)) xs
      else take (nat (to_integer e)) xs)"

definition new_history :: "platform \<Rightarrow> heap \<Rightarrow> val \<Rightarrow> int \<Rightarrow> exn + history \<times> heap" where
  "new_history P h initialState now =
     (case cloneState P h initialState of
        Inl e \<Rightarrow> Inl e
      | Inr (c, h1) \<Rightarrow>
          Inr (\<lparr>states = [Some \<lparr>state = c, timestamp = now, label = Some ''Initial state''\<rparr>],
                currentIndex = 0\<rparr>, h1))"

text \<open>
  The getter \<open>currentState\<close>: \<open>states[currentIndex].state\<close>. An array has an element
  at a key only when the key is a whole number from 0 to below its length; at any other
  key the read gives \<open>undefined\<close>, and the read of \<open>state\<close> throws.
\<close>

definition whole :: "rat \<Rightarrow> bool" where
  "whole r \<longleftrightarrow> of_int \<lfloor>r\<rfloor> = r"

definition get_currentState :: "history \<Rightarrow> exn + val" where
  "get_currentState hist =
     (if whole (currentIndex hist) \<and> 0 \<le> currentIndex hist \<and>
         currentIndex hist < of_nat (length (states hist))
      then (case states hist ! nat \<lfloor>currentIndex hist\<rfloor> of
              None \<Rightarrow> Inl no_property_of
            | Some e \<Rightarrow> Inr (state e))
      else Inl no_property_of)"

definition addState ::
  "platform \<Rightarrow> history \<Rightarrow> heap \<Rightarrow> val \<Rightarrow> string option \<Rightarrow> int \<Rightarrow> exn option \<times> history \<times> heap" where
  "addState P hist h s lbl now =
     (let hist1 = hist\<lparr>states := slice0 (states hist) (currentIndex hist + 1)\<rparr> in
      case cloneState P h s of
        Inl e \<Rightarrow> (Some e, hist1, h)
      | Inr (c, h1) \<Rightarrow>
          (let hist2 = hist1\<lparr>states := states hist1 @ [Some \<lparr>state = c, timestamp = now, label = lbl\<rparr>]\<rparr>
           in (None, hist2\<lparr>currentIndex := of_nat (length (states hist2)) - 1\<rparr>, h1)))"

definition goBack :: "history \<Rightarrow> history" where
  "goBack hist = (if currentIndex hist > 0 then hist\<lparr>currentIndex := currentIndex hist - 1\<rparr> else hist)"

definition goForward :: "history \<Rightarrow> history" where
  "goForward hist =
     (if currentIndex hist < of_nat (length (states hist)) - 1
      then hist\<lparr>currentIndex := currentIndex hist + 1\<rparr> else hist)"

text \<open>
  \<open>goToIndex\<close>. The guard compares numbers and nothing else: a finite number passes it
  when it lies from 0 to below the length, whole or not. For \<open>NaN\<close> both comparisons
  are false, for \<open>Infinity\<close> the second and for \<open>-Infinity\<close> the first.
\<close>

definition goToIndex :: "history \<Rightarrow> number \<Rightarrow> history" where
  "goToIndex hist index =
     (case index of
        Finite r \<Rightarrow>
          if r \<ge> 0 \<and> r < of_nat (length (states hist)) then hist\<lparr>currentIndex := r\<rparr> else hist
      | PlusInfinity \<Rightarrow> hist
      | MinusInfinity \<Rightarrow> hist
      | NotANumber \<Rightarrow> hist)"

definition reset_history :: "history \<Rightarrow> history" where
  "reset_history hist = hist\<lparr>currentIndex := 0\<rparr>"

definition clear :: "history \<Rightarrow> history" where
  "clear hist =
     (let initial = (case states hist of [] \<Rightarrow> None | e # _ \<Rightarrow> e)
      in hist\<lparr>states := [initial], currentIndex := 0\<rparr>)"

text \<open>
  The operations on a log, in any order. \<open>Other f\<close> is whatever the rest of the program
  does to the store between two operations on the log.
\<close>

datatype hist_op =
    AddState val "string option" int
  | GoBack
  | GoForward
  | GoToIndex number
  | Reset
  | Clear
  | Other "heap \<Rightarrow> heap"

fun hist_step :: "platform \<Rightarrow> history \<times> heap \<Rightarrow> hist_op \<Rightarrow> history \<times> heap" where
  "hist_step P (hist, h) (AddState s lbl now) = snd (addState P hist h s lbl now)"
| "hist_step P (hist, h) GoBack = (goBack hist, h)"
| "hist_step P (hist, h) GoForward = (goForward hist, h)"
| "hist_step P (hist, h) (GoToIndex i) = (goToIndex hist i, h)"
| "hist_step P (hist, h) Reset = (reset_history hist, h)"
| "hist_step P (hist, h) Clear = (clear hist, h)"
| "hist_step P (hist, h) (Other f) = (hist, f h)"

definition run_history :: "platform \<Rightarrow> history \<times> heap \<Rightarrow> hist_op list \<Rightarrow> history \<times> heap" where
  "run_history P = foldl (hist_step P)"

text \<open>
  The cursor is the index of an entry of the log: a whole number from 0 to below the
  length, with an entry at every index. An operation has a whole index when it is not
  a \<open>goToIndex\<close> with a finite number that is not whole.
\<close>

definition cursor_valid :: "history \<Rightarrow> bool" where
  "cursor_valid hist \<longleftrightarrow>
     whole (currentIndex hist) \<and>
     0 \<le> currentIndex hist \<and> currentIndex hist < of_nat (length (states hist)) \<and>
     states hist \<noteq> [] \<and> None \<notin> set (states hist)"

fun whole_index :: "hist_op \<Rightarrow> bool" where
  "whole_index (GoToIndex (Finite r)) = whole r"
| "whole_index op = True"

section \<open>The array wrapper\<close>

text \<open>
  \<open>SignalArray\<close> wraps a signal that holds an array (\<open>wrap\<close>), or one field of a signal
  that holds a record (\<open>from\<close>). A mutation computes the next array from the current one
  and replaces the value of the signal; no array is changed in place. A field of the
  parent record is an array or something else.
\<close>

datatype 'a field = ArrayField "'a list" | OtherField val

datatype 'a signal_array =
    Wrap "'a list"
  | From "pkey \<Rightarrow> 'a field option" pkey

fun "value" :: "'a signal_array \<Rightarrow> 'a list" where
  "value (Wrap arr) = arr"
| "value (From parent key) = (case parent key of Some (ArrayField arr) \<Rightarrow> arr | _ \<Rightarrow> [])"





section \<open>The debounced field binding\<close>

text \<open>
  \<open>DebounceFieldDirective\<close>, the way from the widget to the cell. The stream of input
  events is debounced and merged with the stream of blur events; what follows is what
  the directive does with a string that comes out of the merged stream: the \<open>filter\<close>,
  then \<open>writeToSignal\<close>. \<open>String(v)\<close> of an object or a function is left to the platform
  (\<open>text_of\<close>).
\<close>

definition digit :: "nat \<Rightarrow> char" where
  "digit d = char_of (48 + d)"

function string_of_nat :: "nat \<Rightarrow> string" where
  "string_of_nat n = (if n div 10 = 0 then [] else string_of_nat (n div 10)) @ [digit (n mod 10)]"
  by pat_completeness auto
termination
  by (relation "measure id") auto

definition string_of_int :: "int \<Rightarrow> string" where
  "string_of_int i = (if i < 0 then CHR ''-'' # string_of_nat (nat (- i)) else string_of_nat (nat i))"

fun js_String :: "(val \<Rightarrow> string) \<Rightarrow> val \<Rightarrow> string" where
  "js_String text_of Undefined = ''undefined''"
| "js_String text_of Null = ''null''"
| "js_String text_of (Bool b) = (if b then ''true'' else ''false'')"
| "js_String text_of (Num NaN) = ''NaN''"
| "js_String text_of (Num (Fin i)) = string_of_int i"
| "js_String text_of (Str s) = s"
| "js_String text_of v = text_of v"

text \<open>\<open>v ?? d\<close>\<close>

definition nullish_or :: "val \<Rightarrow> val \<Rightarrow> val" where
  "nullish_or v d = (if v = Undefined \<or> v = Null then d else v)"

record directive =
  field :: val
  debounceTime :: int
  transform :: "(string \<Rightarrow> val) option"

definition writeToSignal :: "directive \<Rightarrow> string \<Rightarrow> directive" where
  "writeToSignal D rawValue =
     (let finalValue = (case transform D of Some f \<Rightarrow> f rawValue | None \<Rightarrow> Str rawValue)
      in D\<lparr>field := finalValue\<rparr>)"

text \<open>
  One string of the merged stream. The result says whether the cell was written
  (\<open>Some\<close> of the value passed to \<open>set\<close>) and gives the directive afterwards.
\<close>

definition on_value :: "(val \<Rightarrow> string) \<Rightarrow> directive \<Rightarrow> string \<Rightarrow> val option \<times> directive" where
  "on_value text_of D newValue =
     (if js_String text_of (nullish_or (field D) (Str '''')) \<noteq> newValue
      then (Some (field (writeToSignal D newValue)), writeToSignal D newValue)
      else (None, D))"

text \<open>\<open>s.trim()\<close>, for blanks.\<close>

definition trim :: "string \<Rightarrow> string" where
  "trim s = rev (dropWhile (\<lambda>c. c = CHR '' '') (rev (dropWhile (\<lambda>c. c = CHR '' '') s)))"

section \<open>The debounced asynchronous validator\<close>

text \<open>
  \<open>SparkAsyncValidator\<close>. The resource is keyed on the debounced, deduplicated value of
  the source; every new value of the key is a new request and makes what was in flight
  stale. When the key is \<open>undefined\<close> the resource is idle and does not run its stream;
  otherwise it runs the stream function of the validator, which answers \<open>of(null)\<close> at
  once for an empty value and calls \<open>validate\<close> for any other. The calls of \<open>validate\<close>
  are logged. A call of \<open>validate\<close> settles later (\<open>settle\<close>, with the number of the
  request it was made for); until then the resource is loading and has no value. The
  outcome of a stale request is dropped.
\<close>

record validator =
  calls :: "val list"
  request :: nat
  resource_value :: val
  isLoading :: bool

datatype emission = Of val | Validating

definition stream :: "validator \<Rightarrow> val \<Rightarrow> emission \<times> validator" where
  "stream V v =
     (if v = Str '''' \<or> v = Null \<or> v = Undefined then (Of Null, V)
      else (Validating, V\<lparr>calls := calls V @ [v]\<rparr>))"

definition on_params :: "validator \<Rightarrow> val \<Rightarrow> validator" where
  "on_params V v =
     (let V0 = V\<lparr>request := request V + 1\<rparr> in
      if v = Undefined then V0\<lparr>resource_value := Undefined, isLoading := False\<rparr>
      else case stream V0 v of
        (Of r, V1) \<Rightarrow> V1\<lparr>resource_value := r, isLoading := False\<rparr>
      | (Validating, V1) \<Rightarrow> V1\<lparr>resource_value := Undefined, isLoading := True\<rparr>)"

definition settle :: "validator \<Rightarrow> nat \<Rightarrow> val \<Rightarrow> validator" where
  "settle V k r =
     (if k = request V \<and> isLoading V then V\<lparr>resource_value := r, isLoading := False\<rparr> else V)"

text \<open>\<open>resource.value() ?? null\<close>\<close>

definition error :: "validator \<Rightarrow> val" where
  "error V = nullish_or (resource_value V) Null"

section \<open>The store and its tester\<close>

text \<open>
  The wrapped store, as the tester sees it: properties that are signals (state and
  computed alike, each with the value it reads now), properties that are functions,
  and other properties. A method gets its arguments, the readings of the signals and
  the object store; it returns or throws, and leaves new readings and a new object
  store. \<open>patch\<close> is the state-patch primitive of the store: what the readings are
  after a partial state has been patched in.
\<close>

type_synonym readings = "(pkey \<times> val) list"

type_synonym "method" = "val list \<Rightarrow> readings \<Rightarrow> heap \<Rightarrow> (exn + val) \<times> readings \<times> heap"

record store =
  signals :: readings
  methods :: "(pkey \<times> method) list"
  others :: readings
  patch :: "readings \<Rightarrow> readings \<Rightarrow> readings"

datatype member = IsSignal val | IsMethod "method" | IsOther val | Missing

text \<open>\<open>this.store[name]\<close>\<close>

definition member_of :: "store \<Rightarrow> pkey \<Rightarrow> member" where
  "member_of S name =
     (case map_of (signals S) name of
        Some v \<Rightarrow> IsSignal v
      | None \<Rightarrow>
          (case map_of (methods S) name of
             Some m \<Rightarrow> IsMethod m
           | None \<Rightarrow> (case map_of (others S) name of Some v \<Rightarrow> IsOther v | None \<Rightarrow> Missing)))"

record error_messages =
  stateMatch :: "string option"
  computedMatch :: "string option"
  methodCall :: "string option"

text \<open>
  \<open>StoreTesterOptions\<close>: every property may be absent, and a property that is there may
  have the value \<open>undefined\<close> (\<open>Present None\<close>).
\<close>

datatype 'a property = Absent | Present "'a option"

record tester_options =
  given_autoDetectChanges :: "bool property"
  given_recordHistory :: "bool property"
  given_errorMessages :: "error_messages property"

text \<open>
  The options of a tester, after \<open>{ ...DEFAULT_OPTIONS, ...options }\<close>. The spread copies
  every property that \<open>options\<close> has, whatever its value, over the default: a property
  given as \<open>undefined\<close> is \<open>undefined\<close> (\<open>None\<close>) afterwards, and only an absent one
  keeps its default.
\<close>

record options =
  autoDetectChanges :: "bool option"
  recordHistory :: "bool option"
  errorMessages :: "error_messages option"

definition DEFAULT_OPTIONS :: options where
  "DEFAULT_OPTIONS =
     \<lparr>autoDetectChanges = Some True, recordHistory = Some False,
      errorMessages = Some \<lparr>stateMatch = Some ''Expected state to match'',
                            computedMatch = Some ''Expected computed signal to match'',
                            methodCall = Some ''Error calling method''\<rparr>\<rparr>"



record tester =
  store :: store
  tester_options :: options
  history :: "history option"

text \<open>The getter \<open>state\<close>: a new record of the readings of all signals.\<close>

definition get_state :: "tester \<Rightarrow> heap \<Rightarrow> val \<times> heap" where
  "get_state T h = alloc h (Object (signals (store T)))"

text \<open>What either of \<open>setState\<close>, \<open>patchState\<close> and \<open>callMethod\<close> does after the store has changed.\<close>

definition record_state ::
  "platform \<Rightarrow> tester \<Rightarrow> heap \<Rightarrow> string \<Rightarrow> int \<Rightarrow> exn option \<times> tester \<times> heap" where
  "record_state P T h lbl now =
     (case history T of
        None \<Rightarrow> (None, T, h)
      | Some hist \<Rightarrow>
          (case get_state T h of
             (s, h1) \<Rightarrow>
               (case addState P hist h1 s (Some lbl) now of
                  (r, hist', h2) \<Rightarrow> (r, T\<lparr>history := Some hist'\<rparr>, h2))))"

definition setState ::
  "platform \<Rightarrow> tester \<Rightarrow> heap \<Rightarrow> readings \<Rightarrow> int \<Rightarrow> exn option \<times> tester \<times> heap" where
  "setState P T h partial now =
     record_state P
       (T\<lparr>store := (store T)\<lparr>signals := patch (store T) (signals (store T)) partial\<rparr>\<rparr>)
       h ''setState'' now"

definition patchState ::
  "platform \<Rightarrow> tester \<Rightarrow> heap \<Rightarrow> readings \<Rightarrow> int \<Rightarrow> exn option \<times> tester \<times> heap" where
  "patchState P T h partial now =
     record_state P
       (T\<lparr>store := (store T)\<lparr>signals := patch (store T) (signals (store T)) partial\<rparr>\<rparr>)
       h ''patchState'' now"

text \<open>
  \<open>String(name)\<close> of a key, \<open>String(error)\<close> of what was thrown (an \<open>Error\<close> prints
  its name and its message), and a text between double quotes.
\<close>

definition key_string :: "pkey \<Rightarrow> string" where
  "key_string k = (case k of Name s \<Rightarrow> s | Idx i \<Rightarrow> string_of_nat i)"

fun exn_string :: "exn \<Rightarrow> string" where
  "exn_string (ThrownString s) = s"
| "exn_string (JsError name msg) =
     (if name = [] then msg else if msg = [] then name else name @ '': '' @ msg)"

definition quoted :: "string \<Rightarrow> string" where
  "quoted s = [CHR 0x22] @ s @ [CHR 0x22]"

definition methodCall_text :: "error_messages \<Rightarrow> string" where
  "methodCall_text em = (case methodCall em of None \<Rightarrow> ''undefined'' | Some s \<Rightarrow> s)"

definition not_a_method :: "pkey \<Rightarrow> exn" where
  "not_a_method name = JsError ''Error'' (''Property '' @ quoted (key_string name) @ '' is not a method'')"

text \<open>
  What the \<open>catch\<close> block of \<open>callMethod\<close> throws. The message is put together from left
  to right, and \<open>this.options.errorMessages.methodCall\<close> comes first: where
  \<open>errorMessages\<close> is \<open>undefined\<close> that read throws a \<open>TypeError\<close>, and no \<open>Error\<close> is made.
\<close>

definition rewrapped :: "tester \<Rightarrow> pkey \<Rightarrow> exn \<Rightarrow> exn" where
  "rewrapped T name e =
     (case errorMessages (tester_options T) of
        None \<Rightarrow> no_property_of
      | Some em \<Rightarrow>
          JsError ''Error'' (methodCall_text em @ '' '' @ quoted (key_string name) @ '': '' @ exn_string e))"

text \<open>
  \<open>callMethod\<close>. A signal is a function too: called, it returns its value. The call of
  the method and the recording of the state are both inside the \<open>try\<close>.
\<close>

definition apply_member :: "member \<Rightarrow> (val list \<Rightarrow> readings \<Rightarrow> heap \<Rightarrow> (exn + val) \<times> readings \<times> heap) option" where
  "apply_member m =
     (case m of
        IsMethod f \<Rightarrow> Some f
      | IsSignal v \<Rightarrow> Some (\<lambda>args sg h. (Inr v, sg, h))
      | IsOther v \<Rightarrow> None
      | Missing \<Rightarrow> None)"

definition callMethod ::
  "platform \<Rightarrow> tester \<Rightarrow> heap \<Rightarrow> pkey \<Rightarrow> val list \<Rightarrow> int \<Rightarrow> (exn + val) \<times> tester \<times> heap" where
  "callMethod P T h name args now =
     (case apply_member (member_of (store T) name) of
        None \<Rightarrow> (Inl (not_a_method name), T, h)
      | Some f \<Rightarrow>
          (case f args (signals (store T)) h of
             (Inl e, sg, h1) \<Rightarrow>
               (Inl (rewrapped T name e), T\<lparr>store := (store T)\<lparr>signals := sg\<rparr>\<rparr>, h1)
           | (Inr result, sg, h1) \<Rightarrow>
               (case record_state P (T\<lparr>store := (store T)\<lparr>signals := sg\<rparr>\<rparr>) h1
                       (''callMethod: '' @ key_string name) now of
                  (Some e, T2, h2) \<Rightarrow> (Inl (rewrapped T name e), T2, h2)
                | (None, T2, h2) \<Rightarrow> (Inr result, T2, h2))))"


definition stopRecording :: "tester \<Rightarrow> tester" where
  "stopRecording T = T\<lparr>history := None\<rparr>"


section \<open>Waiting for a state\<close>

text \<open>
  \<open>waitForState\<close>. The condition is a predicate or a partial record. One run of
  \<open>checkCondition\<close> reads the state and the clock; it resolves the promise, rejects it,
  or sets a timer for the next run. The runs are numbered; \<open>world k\<close> is the state and
  the clock that run \<open>k\<close> finds. The loop returns the number of the run that settled
  the promise, and how; it returns nothing when no run ever does.
\<close>

record wait_options =
  timeout :: "int option"
  interval :: "int option"
  timeoutMessage :: "string option"

datatype condition = Predicate "readings \<Rightarrow> bool" | Partial readings

text \<open>\<open>state[key]\<close>\<close>

definition get_field :: "readings \<Rightarrow> pkey \<Rightarrow> val" where
  "get_field st key = (case map_of st key of None \<Rightarrow> Undefined | Some v \<Rightarrow> v)"

fun conditionFn :: "condition \<Rightarrow> readings \<Rightarrow> bool" where
  "conditionFn (Predicate f) st = f st"
| "conditionFn (Partial c) st = list_all (\<lambda>(key, v). strict_eq (get_field st key) v) c"

datatype settled = Resolved | Rejected exn

record poll =
  settle_with :: "settled option"
  timers :: "int list"

definition timeout_of :: "wait_options \<Rightarrow> int" where
  "timeout_of opts = (case timeout opts of None \<Rightarrow> 5000 | Some t \<Rightarrow> t)"

definition interval_of :: "wait_options \<Rightarrow> int" where
  "interval_of opts = (case interval opts of None \<Rightarrow> 50 | Some i \<Rightarrow> i)"

text \<open>\<open>timeoutMessage || `Timeout waiting for state condition after ${timeout}ms`\<close>\<close>

definition timeout_text :: "wait_options \<Rightarrow> string" where
  "timeout_text opts =
     (case timeoutMessage opts of
        Some m \<Rightarrow> if m \<noteq> [] then m
                  else ''Timeout waiting for state condition after '' @ string_of_int (timeout_of opts) @ ''ms''
      | None \<Rightarrow> ''Timeout waiting for state condition after '' @ string_of_int (timeout_of opts) @ ''ms'')"

definition checkCondition :: "condition \<Rightarrow> wait_options \<Rightarrow> int \<Rightarrow> readings \<Rightarrow> int \<Rightarrow> poll" where
  "checkCondition c opts startTime currentState now =
     (if conditionFn c currentState then \<lparr>settle_with = Some Resolved, timers = []\<rparr>
      else if now - startTime \<ge> timeout_of opts
      then \<lparr>settle_with = Some (Rejected (JsError ''Error'' (timeout_text opts))), timers = []\<rparr>
      else \<lparr>settle_with = None, timers = [interval_of opts]\<rparr>)"

partial_function (option) poll_from ::
  "condition \<Rightarrow> wait_options \<Rightarrow> int \<Rightarrow> (nat \<Rightarrow> readings \<times> int) \<Rightarrow> nat \<Rightarrow> (nat \<times> settled) option" where
  "poll_from c opts startTime world k =
     (case settle_with (checkCondition c opts startTime (fst (world k)) (snd (world k))) of
        Some r \<Rightarrow> Some (k, r)
      | None \<Rightarrow>
          (case timers (checkCondition c opts startTime (fst (world k)) (snd (world k))) of
             [] \<Rightarrow> None
           | d # ds \<Rightarrow> poll_from c opts startTime world (Suc k)))"

definition waitForState ::
  "condition \<Rightarrow> wait_options \<Rightarrow> int \<Rightarrow> (nat \<Rightarrow> readings \<times> int) \<Rightarrow> (nat \<times> settled) option" where
  "waitForState c opts startTime world = poll_from c opts startTime world 0"

declare poll_from.simps [code]

section \<open>Deep equality, diff and deep clone\<close>

text \<open>
  \<open>Object.keys(o)\<close> and \<open>o[key]\<close> for an object of the store, and for any value.
\<close>

fun own_keys :: "obj \<Rightarrow> pkey list" where
  "own_keys (Object kvs) = map fst kvs"
| "own_keys (Array xs) = map Idx [0..<length xs]"
| "own_keys (Date t) = []"

fun get_prop :: "obj \<Rightarrow> pkey \<Rightarrow> val" where
  "get_prop (Object kvs) key = (case map_of kvs key of None \<Rightarrow> Undefined | Some v \<Rightarrow> v)"
| "get_prop (Array xs) (Idx i) = (if i < length xs then xs ! i else Undefined)"
| "get_prop (Array xs) (Name s) = (if s = ''length'' then Num (Fin (int (length xs))) else Undefined)"
| "get_prop (Date t) key = Undefined"

definition no_keys_of :: exn where
  "no_keys_of = JsError ''TypeError'' ''Cannot convert undefined or null to object''"

fun value_keys :: "heap \<Rightarrow> val \<Rightarrow> exn + pkey list" where
  "value_keys h (Ref a) = (case lookup h a of None \<Rightarrow> Inl dangling | Some ob \<Rightarrow> Inr (own_keys ob))"
| "value_keys h (Str s) = Inr (map Idx [0..<length s])"
| "value_keys h Undefined = Inl no_keys_of"
| "value_keys h Null = Inl no_keys_of"
| "value_keys h v = Inr []"

fun read_prop :: "heap \<Rightarrow> val \<Rightarrow> pkey \<Rightarrow> exn + val" where
  "read_prop h (Ref a) key = (case lookup h a of None \<Rightarrow> Inl dangling | Some ob \<Rightarrow> Inr (get_prop ob key))"
| "read_prop h (Str s) (Idx i) = Inr (if i < length s then Str [s ! i] else Undefined)"
| "read_prop h (Str s) (Name n) = Inr (if n = ''length'' then Num (Fin (int (length s))) else Undefined)"
| "read_prop h Undefined key = Inl no_property_of"
| "read_prop h Null key = Inl no_property_of"
| "read_prop h v key = Inr Undefined"

fun is_Date :: "obj \<Rightarrow> bool" where
  "is_Date (Date t) = True"
| "is_Date ob = False"

fun is_Array :: "obj \<Rightarrow> bool" where
  "is_Array (Array xs) = True"
| "is_Array ob = False"

text \<open>\<open>s === t\<close> for two numbers.\<close>

fun num_eq :: "num \<Rightarrow> num \<Rightarrow> bool" where
  "num_eq (Fin i) (Fin j) = (i = j)"
| "num_eq s t = False"

text \<open>A loop over keys that returns \<open>false\<close> at the first key that fails.\<close>

fun every_key :: "(pkey \<Rightarrow> exn + bool) \<Rightarrow> pkey list \<Rightarrow> exn + bool" where
  "every_key f [] = Inr True"
| "every_key f (key # keys) =
     (case f key of
        Inl e \<Rightarrow> Inl e
      | Inr False \<Rightarrow> Inr False
      | Inr True \<Rightarrow> every_key f keys)"

text \<open>
  \<open>FormTracker.isEqual\<close>. The first argument is the room left on the call stack: a
  call with no room left throws.
\<close>

fun isEqual :: "nat \<Rightarrow> heap \<Rightarrow> val \<Rightarrow> val \<Rightarrow> exn + bool" where
  "isEqual 0 h a b = Inl stack_overflow"
| "isEqual (Suc n) h a b =
     (if strict_eq a b then Inr True
      else if falsy a \<or> falsy b \<or> \<not> typeof_object a \<or> \<not> typeof_object b then Inr (strict_eq a b)
      else case (a, b) of
        (Ref x, Ref y) \<Rightarrow>
          (case (lookup h x, lookup h y) of
             (Some oa, Some ob) \<Rightarrow>
               (case (oa, ob) of
                  (Date s, Date t) \<Rightarrow> Inr (num_eq s t)
                | _ \<Rightarrow>
                    if is_Array oa \<noteq> is_Array ob then Inr False
                    else if length (own_keys oa) \<noteq> length (own_keys ob) then Inr False
                    else every_key
                           (\<lambda>key. if key \<notin> set (own_keys ob) then Inr False
                                  else isEqual n h (get_prop oa key) (get_prop ob key))
                           (own_keys oa))
           | _ \<Rightarrow> Inl dangling)
      | _ \<Rightarrow> Inr False)"

text \<open>\<open>diff[key] = v\<close>\<close>

definition set_prop :: "(pkey \<times> val) list \<Rightarrow> pkey \<Rightarrow> val \<Rightarrow> (pkey \<times> val) list" where
  "set_prop kvs key v =
     (if key \<in> fst ` set kvs then map (\<lambda>(k, w). if k = key then (k, v) else (k, w)) kvs
      else kvs @ [(key, v)])"

text \<open>
  \<open>FormTracker.getDiff\<close>. The result is the content of the record \<open>diff\<close>, key by key in
  the order in which the keys were put in.
\<close>

fun diff_keys ::
  "nat \<Rightarrow> heap \<Rightarrow> val \<Rightarrow> val \<Rightarrow> pkey list \<Rightarrow> (pkey \<times> val) list \<Rightarrow> exn + (pkey \<times> val) list" where
  "diff_keys n h base current [] diff = Inr diff"
| "diff_keys n h base current (key # keys) diff =
     (case read_prop h base key of
        Inl e \<Rightarrow> Inl e
      | Inr val1 \<Rightarrow>
          (case read_prop h current key of
             Inl e \<Rightarrow> Inl e
           | Inr val2 \<Rightarrow>
               (case isEqual n h val1 val2 of
                  Inl e \<Rightarrow> Inl e
                | Inr eq \<Rightarrow>
                    diff_keys n h base current keys (if eq then diff else set_prop diff key val2))))"

definition getDiff :: "nat \<Rightarrow> heap \<Rightarrow> val \<Rightarrow> val \<Rightarrow> exn + (pkey \<times> val) list" where
  "getDiff n h base current =
     (if falsy base \<or> falsy current then Inr []
      else case value_keys h current of
        Inl e \<Rightarrow> Inl e
      | Inr keys \<Rightarrow> diff_keys n h base current keys [])"

text \<open>
  \<open>deepClone\<close>. Where the platform has \<open>structuredClone\<close> it is used; it is a function
  of the platform and not of this library, so it is a parameter here. The copy of an
  array or of a record is put into the store when its content is complete.
\<close>

record environment = platform +
  structuredClone :: "(heap \<Rightarrow> val \<Rightarrow> exn + val \<times> heap) option"

fun thread :: "(heap \<Rightarrow> 'a \<Rightarrow> exn + 'b \<times> heap) \<Rightarrow> heap \<Rightarrow> 'a list \<Rightarrow> exn + 'b list \<times> heap" where
  "thread f h [] = Inr ([], h)"
| "thread f h (x # xs) =
     (case f h x of
        Inl e \<Rightarrow> Inl e
      | Inr (y, h1) \<Rightarrow>
          (case thread f h1 xs of Inl e \<Rightarrow> Inl e | Inr (ys, h2) \<Rightarrow> Inr (y # ys, h2)))"

fun deepClone_at ::
  "(heap \<Rightarrow> val \<Rightarrow> exn + val \<times> heap) option \<Rightarrow> nat \<Rightarrow> heap \<Rightarrow> val \<Rightarrow> exn + val \<times> heap" where
  "deepClone_at native 0 h ob = Inl stack_overflow"
| "deepClone_at native (Suc n) h ob =
     (case native of
        Some sc \<Rightarrow> sc h ob
      | None \<Rightarrow>
          (if ob = Null \<or> \<not> typeof_object ob then Inr (ob, h)
           else case ob of
             Ref a \<Rightarrow>
               (case lookup h a of
                  None \<Rightarrow> Inl dangling
                | Some (Date t) \<Rightarrow> Inr (alloc h (Date t))
                | Some (Array xs) \<Rightarrow>
                    (case thread (\<lambda>h1 item. deepClone_at native n h1 item) h xs of
                       Inl e \<Rightarrow> Inl e
                     | Inr (ys, h1) \<Rightarrow> Inr (alloc h1 (Array ys)))
                | Some (Object kvs) \<Rightarrow>
                    (case thread (\<lambda>h1 (key, v). case deepClone_at native n h1 v of
                                     Inl e \<Rightarrow> Inl e | Inr (w, h2) \<Rightarrow> Inr ((key, w), h2)) h kvs of
                       Inl e \<Rightarrow> Inl e
                     | Inr (cloned, h1) \<Rightarrow> Inr (alloc h1 (Object cloned))))
           | _ \<Rightarrow> Inr (ob, h)))"

definition deepClone :: "environment \<Rightarrow> heap \<Rightarrow> val \<Rightarrow> exn + val \<times> heap" where
  "deepClone E h ob = deepClone_at (structuredClone E) (stack_depth E) h ob"

section \<open>The dirty-state tracker\<close>

text \<open>\<open>FormTracker\<close>: the value of the baseline signal and the value of the source signal.\<close>

record tracker =
  baseline :: val
  source :: val

definition commit :: "environment \<Rightarrow> tracker \<Rightarrow> heap \<Rightarrow> exn option \<times> tracker \<times> heap" where
  "commit E T h =
     (case deepClone E h (source T) of
        Inl e \<Rightarrow> (Some e, T, h)
      | Inr (c, h1) \<Rightarrow> (None, T\<lparr>baseline := c\<rparr>, h1))"

definition reset :: "environment \<Rightarrow> tracker \<Rightarrow> heap \<Rightarrow> exn option \<times> tracker \<times> heap" where
  "reset E T h =
     (if falsy (baseline T) then (None, T, h)
      else case deepClone E h (baseline T) of
        Inl e \<Rightarrow> (Some e, T, h)
      | Inr (c, h1) \<Rightarrow> (None, T\<lparr>source := c\<rparr>, h1))"

definition new_tracker :: "environment \<Rightarrow> val \<Rightarrow> heap \<Rightarrow> exn option \<times> tracker \<times> heap" where
  "new_tracker E src h = commit E \<lparr>baseline = Null, source = src\<rparr> h"

definition isDirty :: "environment \<Rightarrow> tracker \<Rightarrow> heap \<Rightarrow> exn + bool" where
  "isDirty E T h =
     (case isEqual (stack_depth E) h (source T) (baseline T) of
        Inl e \<Rightarrow> Inl e
      | Inr eq \<Rightarrow> Inr (\<not> eq))"


section \<open>Plain data in the store\<close>

text \<open>
  A leaf of a value is a primitive value or the time of a date. \<open>data ok n B h v\<close>: the
  value \<open>v\<close> is plain data in the store \<open>h\<close>, nested at most \<open>n\<close> deep, made of objects
  whose addresses are in \<open>B\<close> and of leaves that satisfy \<open>ok\<close>; the keys of a record are
  distinct. \<open>same n h a b\<close>: the values \<open>a\<close> and \<open>b\<close> have the same structure and the same
  leaves.
\<close>

datatype leaf = Prim val | Time num

fun data :: "(leaf \<Rightarrow> bool) \<Rightarrow> nat \<Rightarrow> addr set \<Rightarrow> heap \<Rightarrow> val \<Rightarrow> bool" where
  "data ok 0 B h (Ref a) = False"
| "data ok (Suc n) B h (Ref a) =
     (a \<in> B \<and>
      (case lookup h a of
         None \<Rightarrow> False
       | Some (Date t) \<Rightarrow> ok (Time t)
       | Some (Array xs) \<Rightarrow> list_all (data ok n B h) xs
       | Some (Object kvs) \<Rightarrow> distinct (map fst kvs) \<and> list_all (\<lambda>(key, v). data ok n B h v) kvs))"
| "data ok n B h v = ok (Prim v)"

fun same :: "nat \<Rightarrow> heap \<Rightarrow> val \<Rightarrow> val \<Rightarrow> bool" where
  "same 0 h (Ref x) (Ref y) = False"
| "same (Suc n) h (Ref x) (Ref y) =
     (case (lookup h x, lookup h y) of
        (Some (Date s), Some (Date t)) \<Rightarrow> s = t
      | (Some (Array xs), Some (Array ys)) \<Rightarrow> list_all2 (same n h) xs ys
      | (Some (Object kas), Some (Object kbs)) \<Rightarrow>
          map fst kas = map fst kbs \<and> list_all2 (same n h) (map snd kas) (map snd kbs)
      | _ \<Rightarrow> False)"
| "same n h a b = (a = b)"

text \<open>Leaves that are not \<open>NaN\<close> and not functions.\<close>

fun sound :: "leaf \<Rightarrow> bool" where
  "sound (Prim (Num NaN)) = False"
| "sound (Prim (Fn f)) = False"
| "sound (Time NaN) = False"
| "sound l = True"

fun no_function :: "leaf \<Rightarrow> bool" where
  "no_function (Prim (Fn f)) = False"
| "no_function l = True"

text \<open>
  What is taken for granted of \<open>structuredClone\<close>, for data nested at most \<open>N\<close> deep:
  of plain data without functions it makes a copy with the same structure and leaves,
  in new objects, and leaves the objects there are as they are.
\<close>

definition clones :: "nat \<Rightarrow> (heap \<Rightarrow> val \<Rightarrow> exn + val \<times> heap) \<Rightarrow> bool" where
  "clones N sc \<longleftrightarrow>
     (\<forall>n h v. n \<le> N \<and> data no_function n UNIV h v \<longrightarrow>
        (\<exists>c ext. sc h v = Inr (c, h @ ext) \<and> same n (h @ ext) c v \<and>
                  data (\<lambda>l. True) n {length h..<length h + length ext} (h @ ext) c))"

section \<open>What a history entry holds\<close>

text \<open>
  \<open>denotes h A v j\<close>: in the store \<open>h\<close> the value \<open>v\<close> is the document \<open>j\<close>, built from
  objects at addresses in \<open>A\<close>. \<open>json_like n h v\<close>: nested at most \<open>n\<close> deep, \<open>v\<close> has no
  date object, no \<open>undefined\<close> and no function in it.
\<close>

fun denotes :: "heap \<Rightarrow> addr set \<Rightarrow> val \<Rightarrow> json \<Rightarrow> bool"
  and denotes_elems :: "heap \<Rightarrow> addr set \<Rightarrow> val list \<Rightarrow> json list \<Rightarrow> bool"
  and denotes_fields :: "heap \<Rightarrow> addr set \<Rightarrow> (pkey \<times> val) list \<Rightarrow> (pkey \<times> json) list \<Rightarrow> bool" where
  "denotes h A v JNull = (v = Null)"
| "denotes h A v (JBool b) = (v = Bool b)"
| "denotes h A v (JNum i) = (v = Num (Fin i))"
| "denotes h A v (JStr s) = (v = Str s)"
| "denotes h A v (JArr js) =
     (case v of
        Ref a \<Rightarrow> a \<in> A \<and> (case lookup h a of Some (Array vs) \<Rightarrow> denotes_elems h A vs js | _ \<Rightarrow> False)
      | _ \<Rightarrow> False)"
| "denotes h A v (JObj fs) =
     (case v of
        Ref a \<Rightarrow> a \<in> A \<and> (case lookup h a of Some (Object kvs) \<Rightarrow> denotes_fields h A kvs fs | _ \<Rightarrow> False)
      | _ \<Rightarrow> False)"
| "denotes_elems h A vs [] = (vs = [])"
| "denotes_elems h A vs (j # js) =
     (case vs of [] \<Rightarrow> False | v # vs' \<Rightarrow> denotes h A v j \<and> denotes_elems h A vs' js)"
| "denotes_fields h A kvs [] = (kvs = [])"
| "denotes_fields h A kvs ((key, j) # fs) =
     (case kvs of [] \<Rightarrow> False | (k, v) # kvs' \<Rightarrow> k = key \<and> denotes h A v j \<and> denotes_fields h A kvs' fs)"

fun json_like :: "nat \<Rightarrow> heap \<Rightarrow> val \<Rightarrow> bool" where
  "json_like n h Undefined = False"
| "json_like n h (Fn f) = False"
| "json_like 0 h (Ref a) = False"
| "json_like (Suc n) h (Ref a) =
     (case lookup h a of
        None \<Rightarrow> False
      | Some (Date t) \<Rightarrow> False
      | Some (Array xs) \<Rightarrow> list_all (json_like n h) xs
      | Some (Object kvs) \<Rightarrow> list_all (\<lambda>(key, v). json_like n h v) kvs)"
| "json_like n h v = True"

text \<open>
  The operations of the tester that change the store, in any order. \<open>run_keeps P F s ops\<close>:
  in the run of \<open>ops\<close> from \<open>s\<close>, no call of a method of the store, with the arguments,
  the readings and the object store it is given in that run, writes to an object at an
  address in \<open>F\<close>.
\<close>

datatype tester_op =
    SetState readings int
  | PatchState readings int
  | CallMethod pkey "val list" int

fun tester_step :: "platform \<Rightarrow> tester \<times> heap \<Rightarrow> tester_op \<Rightarrow> tester \<times> heap" where
  "tester_step P (T, h) (SetState partial now) = snd (setState P T h partial now)"
| "tester_step P (T, h) (PatchState partial now) = snd (patchState P T h partial now)"
| "tester_step P (T, h) (CallMethod name args now) = snd (callMethod P T h name args now)"

definition run_tester :: "platform \<Rightarrow> tester \<times> heap \<Rightarrow> tester_op list \<Rightarrow> tester \<times> heap" where
  "run_tester P = foldl (tester_step P)"

fun call_keeps :: "addr set \<Rightarrow> tester \<times> heap \<Rightarrow> tester_op \<Rightarrow> bool" where
  "call_keeps F (T, h) (CallMethod name args now) =
     (case apply_member (member_of (store T) name) of
        None \<Rightarrow> True
      | Some f \<Rightarrow> (\<forall>a\<in>F. lookup (snd (snd (f args (signals (store T)) h))) a = lookup h a))"
| "call_keeps F (T, h) (SetState partial now) = True"
| "call_keeps F (T, h) (PatchState partial now) = True"

fun run_keeps :: "platform \<Rightarrow> addr set \<Rightarrow> tester \<times> heap \<Rightarrow> tester_op list \<Rightarrow> bool" where
  "run_keeps P F s [] = True"
| "run_keeps P F s (op # ops) = (call_keeps F s op \<and> run_keeps P F (tester_step P s op) ops)"

section \<open>Examples\<close>

text \<open>A platform and a store with one object, to run the definitions on.\<close>

definition demo_platform :: platform where
  "demo_platform = \<lparr>toISOString = (\<lambda>t. ''2024-01-01T00:00:00.000Z''), stack_depth = 100\<rparr>"

definition counter_heap :: heap where
  "counter_heap = [Object [(Name ''count'', Num (Fin 0))], Object [(Name ''count'', Num (Fin 5))]]"

text \<open>The log that the constructor makes of the first object, with the store it leaves.\<close>

definition counter_log :: "history \<times> heap" where
  "counter_log =
     (\<lparr>states = [Some \<lparr>state = Ref 2, timestamp = 1000, label = Some ''Initial state''\<rparr>],
       currentIndex = 0\<rparr>,
      counter_heap @ [Object [(Name ''count'', Num (Fin 0))]])"

text \<open>A field bound with \<open>trim\<close> as its transform, holding \<open>trimmed\<close>.\<close>

definition object_text :: "val \<Rightarrow> string" where
  "object_text v = ''[object Object]''"

definition trimming :: directive where
  "trimming = \<lparr>field = Str ''trimmed'', debounceTime = 300, transform = Some (\<lambda>s. Str (trim s))\<rparr>"

text \<open>A world in which the timers are exact and the counter becomes 5 at the fourth run.\<close>

definition counting_world :: "nat \<Rightarrow> readings \<times> int" where
  "counting_world k = ([(Name ''count'', Num (Fin (if k < 3 then 0 else 5)))], 1000 + 50 * int k)"

definition count_is_5 :: condition where
  "count_is_5 = Partial [(Name ''count'', Num (Fin 5))]"

definition default_wait :: wait_options where
  "default_wait = \<lparr>timeout = None, interval = None, timeoutMessage = None\<rparr>"

text \<open>A wait of 200 units whose message is the empty text.\<close>

definition empty_message :: wait_options where
  "empty_message = \<lparr>timeout = Some 200, interval = None, timeoutMessage = Some ''''\<rparr>"



definition merge_patch :: "readings \<Rightarrow> readings \<Rightarrow> readings" where
  "merge_patch sg partial = map (\<lambda>(k, v). (k, case map_of partial k of None \<Rightarrow> v | Some w \<Rightarrow> w)) sg"











text \<open>
  An environment without \<open>structuredClone\<close>, one whose \<open>structuredClone\<close> copies as
  the fallback does, a form with a name, and a form whose age is \<open>NaN\<close>.
\<close>

definition demo_environment :: environment where
  "demo_environment =
     \<lparr>toISOString = (\<lambda>t. ''2024-01-01T00:00:00.000Z''), stack_depth = 100, structuredClone = None\<rparr>"

definition native_environment :: environment where
  "native_environment =
     \<lparr>toISOString = (\<lambda>t. ''2024-01-01T00:00:00.000Z''), stack_depth = 100,
      structuredClone = Some (deepClone_at None (Suc 1))\<rparr>"

definition form_heap :: heap where
  "form_heap = [Object [(Name ''name'', Str ''John'')], Object [(Name ''name'', Str ''Jane'')]]"

definition form_tracker :: tracker where
  "form_tracker = \<lparr>baseline = Ref 0, source = Ref 1\<rparr>"

definition nan_heap :: heap where
  "nan_heap = [Object [(Name ''age'', Num NaN)]]"




text \<open>
  A store whose state is a box (the object at address 0) and whose method \<open>repaint\<close>
  changes in place the box its state refers to; the history a tester records for it
  from the start; and the tester.
\<close>

definition box_heap :: heap where
  "box_heap = [Object [(Name ''count'', Num (Fin 0))], Object [(Name ''box'', Ref 0)]]"

definition box_history :: history where
  "box_history =
     \<lparr>states = [Some \<lparr>state = Ref 3, timestamp = 1000, label = Some ''Initial state''\<rparr>],
      currentIndex = 0\<rparr>"

definition repaint :: "method" where
  "repaint args sg h =
     (case get_field sg (Name ''box'') of
        Ref a \<Rightarrow> (Inr Undefined, sg, h[a := Object [(Name ''count'', Num (Fin 99))]])
      | _ \<Rightarrow> (Inr Undefined, sg, h))"

definition repainting_tester :: tester where
  "repainting_tester =
     \<lparr>store = \<lparr>signals = [(Name ''box'', Ref 0)], methods = [(Name ''repaint'', repaint)], others = [],
               patch = merge_patch\<rparr>,
      tester_options = DEFAULT_OPTIONS,
      history = Some box_history\<rparr>"

definition box_document :: json where
  "box_document = JObj [(Name ''box'', JObj [(Name ''count'', JNum 0)])]"

chapter \<open>Properties\<close>

section \<open>The history log: the cursor\<close>

lemma whole_of_int: "whole (of_int i)"
  by (simp add: whole_def)

lemma wholeE: "whole r \<Longrightarrow> \<exists>i. r = of_int i"
  by (metis whole_def)

lemma slice0_valid:
  "0 \<le> i \<Longrightarrow> i < int (length xs) \<Longrightarrow> slice0 xs (of_int i + 1) = take (nat i + 1) xs"
proof -
  assume i: "0 \<le> i" "i < int (length xs)"
  have "to_integer (of_int i + 1) = i + 1"
    using i by (simp add: to_integer_def)
  then show ?thesis
    using i by (simp add: slice0_def nat_add_distrib)
qed

lemma cursor_validE:
  assumes "cursor_valid hist"
  shows "\<exists>i. currentIndex hist = of_int i \<and> 0 \<le> i \<and> i < int (length (states hist)) \<and>
           nat \<lfloor>currentIndex hist\<rfloor> = nat i"
proof -
  from assms obtain i where i: "currentIndex hist = of_int i"
    using wholeE by (auto simp: cursor_valid_def)
  from assms have "0 \<le> (of_int i :: rat)" "(of_int i :: rat) < of_int (int (length (states hist)))"
    unfolding i [symmetric] by (simp_all add: cursor_valid_def)
  then have "0 \<le> i" "i < int (length (states hist))"
    by (simp_all only: of_int_0_le_iff of_int_less_iff)
  with i show ?thesis by simp
qed

lemma cursor_validI:
  assumes "currentIndex hist = of_int i" "0 \<le> i" "i < int (length (states hist))"
    and "None \<notin> set (states hist)"
  shows "cursor_valid hist"
proof -
  have "(of_int i :: rat) < of_int (int (length (states hist)))"
    using assms(3) by (simp only: of_int_less_iff)
  then have "(of_int i :: rat) < of_nat (length (states hist))"
    by simp
  moreover have "states hist \<noteq> []" using assms(2,3) by auto
  ultimately show ?thesis
    using assms by (simp add: cursor_valid_def whole_of_int)
qed

lemma addState_appends:
  assumes "cursor_valid hist" and "cloneState P h s = Inr (c, h1)"
  shows "addState P hist h s lbl now =
          (None,
           \<lparr>states = take (nat \<lfloor>currentIndex hist\<rfloor> + 1) (states hist)
                       @ [Some \<lparr>state = c, timestamp = now, label = lbl\<rparr>],
            currentIndex = currentIndex hist + 1\<rparr>, h1)"
proof -
  from cursor_validE [OF assms(1)] obtain i where
    i: "currentIndex hist = of_int i" "0 \<le> i" "i < int (length (states hist))"
    and n: "nat \<lfloor>currentIndex hist\<rfloor> = nat i" by blast
  have len: "length (take (nat i + 1) (states hist)) = nat i + 1"
    using i by simp
  have "(of_nat (nat i + 1) :: rat) - 1 = of_int i"
    using i(2) by simp
  then show ?thesis
    using i assms(2) len n
    by (simp add: addState_def Let_def slice0_valid del: of_nat_add of_nat_Suc)
qed

lemma addState_throws:
  assumes "cursor_valid hist" and "cloneState P h s = Inl e"
  shows "addState P hist h s lbl now =
          (Some e, hist\<lparr>states := take (nat \<lfloor>currentIndex hist\<rfloor> + 1) (states hist)\<rparr>, h)"
proof -
  from cursor_validE [OF assms(1)] obtain i where
    i: "currentIndex hist = of_int i" "0 \<le> i" "i < int (length (states hist))"
    and n: "nat \<lfloor>currentIndex hist\<rfloor> = nat i" by blast
  then show ?thesis
    using assms(2) by (simp add: addState_def Let_def slice0_valid)
qed

lemma addState_cursor_valid:
  assumes "cursor_valid hist"
  shows "cursor_valid (fst (snd (addState P hist h s lbl now)))"
proof -
  let ?t = "take (nat \<lfloor>currentIndex hist\<rfloor> + 1) (states hist)"
  from cursor_validE [OF assms] obtain i where
    i: "currentIndex hist = of_int i" "0 \<le> i" "i < int (length (states hist))"
    and n: "nat \<lfloor>currentIndex hist\<rfloor> = nat i" by blast
  from assms have nn: "None \<notin> set (states hist)"
    by (simp add: cursor_valid_def)
  have len: "length ?t = nat i + 1"
    using i n by simp
  have nt: "None \<notin> set ?t"
    using nn by (meson in_set_takeD)
  show ?thesis
  proof (cases "cloneState P h s")
    case (Inl e)
    have "cursor_valid (hist\<lparr>states := ?t\<rparr>)"
      by (rule cursor_validI [of _ i]) (use i len nt in simp_all)
    then show ?thesis
      using addState_throws [OF assms Inl] by simp
  next
    case (Inr r)
    obtain c h1 where r: "r = (c, h1)" by (cases r)
    have "cursor_valid \<lparr>states = ?t @ [Some \<lparr>state = c, timestamp = now, label = lbl\<rparr>],
            currentIndex = currentIndex hist + 1\<rparr>"
      by (rule cursor_validI [of _ "i + 1"]) (use i len nt in simp_all)
    then show ?thesis
      using addState_appends [OF assms Inr [unfolded r]] by simp
  qed
qed

lemma goBack_cursor_valid:
  assumes "cursor_valid hist"
  shows "cursor_valid (goBack hist)"
proof -
  from cursor_validE [OF assms] obtain i where
    i: "currentIndex hist = of_int i" "0 \<le> i" "i < int (length (states hist))" by blast
  from assms have nn: "None \<notin> set (states hist)" by (simp add: cursor_valid_def)
  show ?thesis
  proof (cases "0 < i")
    case True
    have "cursor_valid (hist\<lparr>currentIndex := currentIndex hist - 1\<rparr>)"
      by (rule cursor_validI [of _ "i - 1"]) (use i nn True in simp_all)
    with True i show ?thesis by (simp add: goBack_def)
  next
    case False
    with i assms show ?thesis by (simp add: goBack_def)
  qed
qed

lemma goForward_cursor_valid:
  assumes "cursor_valid hist"
  shows "cursor_valid (goForward hist)"
proof -
  from cursor_validE [OF assms] obtain i where
    i: "currentIndex hist = of_int i" "0 \<le> i" "i < int (length (states hist))" by blast
  from assms have nn: "None \<notin> set (states hist)" by (simp add: cursor_valid_def)
  have c: "currentIndex hist < of_nat (length (states hist)) - 1 \<longleftrightarrow> i < int (length (states hist)) - 1"
  proof -
    have "(of_nat (length (states hist)) :: rat) - 1 = of_int (int (length (states hist)) - 1)"
      by simp
    then show ?thesis unfolding i(1) by (simp only: of_int_less_iff)
  qed
  show ?thesis
  proof (cases "i < int (length (states hist)) - 1")
    case True
    have "cursor_valid (hist\<lparr>currentIndex := currentIndex hist + 1\<rparr>)"
      by (rule cursor_validI [of _ "i + 1"]) (use i nn True in simp_all)
    with True c show ?thesis by (simp add: goForward_def)
  next
    case False
    with c assms show ?thesis by (simp add: goForward_def)
  qed
qed

lemma goToIndex_cursor_valid:
  assumes "cursor_valid hist" and "whole_index (GoToIndex index)"
  shows "cursor_valid (goToIndex hist index)"
proof (cases index)
  case (Finite r)
  show ?thesis
  proof (cases "r \<ge> 0 \<and> r < of_nat (length (states hist))")
    case True
    with assms Finite show ?thesis
      by (simp add: goToIndex_def cursor_valid_def)
  next
    case False
    with assms Finite show ?thesis by (auto simp: goToIndex_def)
  qed
qed (use assms in \<open>simp_all add: goToIndex_def\<close>)

lemma hist_step_cursor_valid:
  assumes "cursor_valid (fst s)" and "whole_index op"
  shows "cursor_valid (fst (hist_step P s op))"
proof (cases s)
  case (Pair hist h)
  with assms have v: "cursor_valid hist" by simp
  show ?thesis
  proof (cases op)
    case (AddState x1 x2 x3)
    then show ?thesis using Pair addState_cursor_valid [OF v] by simp
  next
    case GoBack
    then show ?thesis using Pair goBack_cursor_valid [OF v] by simp
  next
    case GoForward
    then show ?thesis using Pair goForward_cursor_valid [OF v] by simp
  next
    case (GoToIndex x)
    then show ?thesis using Pair goToIndex_cursor_valid [OF v] assms(2) by simp
  next
    case Reset
    then show ?thesis using Pair v
      by (auto simp: reset_history_def cursor_valid_def whole_def)
  next
    case Clear
    then show ?thesis using Pair v
      by (cases "states hist") (auto simp: clear_def cursor_valid_def whole_def)
  next
    case (Other f)
    then show ?thesis using Pair v by simp
  qed
qed

lemma run_history_cursor_valid:
  "cursor_valid (fst s) \<Longrightarrow> list_all whole_index ops \<Longrightarrow> cursor_valid (fst (run_history P s ops))"
  unfolding run_history_def
  by (induction ops arbitrary: s) (simp_all add: hist_step_cursor_valid)

lemma new_history_cursor_valid:
  "new_history P h s now = Inr (hist, h1) \<Longrightarrow> cursor_valid hist"
  by (auto simp: new_history_def cursor_valid_def whole_def split: sum.splits)

lemma currentState_valid:
  assumes "cursor_valid hist"
  shows "\<exists>e. states hist ! nat \<lfloor>currentIndex hist\<rfloor> = Some e \<and> get_currentState hist = Inr (state e)"
proof -
  from cursor_validE [OF assms] obtain i where
    i: "currentIndex hist = of_int i" "0 \<le> i" "i < int (length (states hist))"
    and n: "nat \<lfloor>currentIndex hist\<rfloor> = nat i" by blast
  from i have "nat i < length (states hist)" by simp
  then have "states hist ! nat i \<in> set (states hist)" by (rule nth_mem)
  with assms obtain e where e: "states hist ! nat i = Some e"
    by (cases "states hist ! nat i") (auto simp: cursor_valid_def)
  with assms n show ?thesis
    by (simp add: get_currentState_def cursor_valid_def)
qed

text \<open>
  C1, for whole indices. A log is made by the constructor and then changed by
  \<open>addState\<close> (which \<open>setState\<close>, \<open>patchState\<close> and \<open>callMethod\<close> call), \<open>goBack\<close>,
  \<open>goForward\<close>, \<open>goToIndex\<close>, \<open>reset\<close> and \<open>clear\<close>, in any order and with anything else
  happening to the store in between. After any such sequence in which no \<open>goToIndex\<close>
  is given a finite number that is not whole, the log is not empty and the cursor is
  the index of one of its entries: a whole number with \<open>0 \<le> currentIndex <
  states.length\<close>, and \<open>currentState\<close> returns the state of the entry there. An append
  at that point keeps the entries up to the cursor, drops every entry after it, puts
  the new entry behind them and moves the cursor onto it; when the snapshot cannot be
  serialised, the entries after the cursor are dropped and nothing is appended.
\<close>

theorem history_log_cursor:
  assumes "new_history P h0 s0 t0 = Inr start" and "list_all whole_index ops"
  shows "cursor_valid (fst (run_history P start ops)) \<and>
         (\<exists>e. states (fst (run_history P start ops)) ! nat \<lfloor>currentIndex (fst (run_history P start ops))\<rfloor>
                 = Some e \<and>
               get_currentState (fst (run_history P start ops)) = Inr (state e)) \<and>
         (\<forall>h s lbl now c h1. cloneState P h s = Inr (c, h1) \<longrightarrow>
            addState P (fst (run_history P start ops)) h s lbl now =
              (None,
               \<lparr>states = take (nat \<lfloor>currentIndex (fst (run_history P start ops))\<rfloor> + 1)
                                (states (fst (run_history P start ops)))
                           @ [Some \<lparr>state = c, timestamp = now, label = lbl\<rparr>],
                currentIndex = currentIndex (fst (run_history P start ops)) + 1\<rparr>, h1)) \<and>
         (\<forall>h s lbl now e. cloneState P h s = Inl e \<longrightarrow>
            addState P (fst (run_history P start ops)) h s lbl now =
              (Some e,
               (fst (run_history P start ops))
                 \<lparr>states := take (nat \<lfloor>currentIndex (fst (run_history P start ops))\<rfloor> + 1)
                                  (states (fst (run_history P start ops)))\<rparr>, h))"
proof -
  obtain hist h1 where s: "start = (hist, h1)" by (cases start)
  have "cursor_valid (fst start)"
    using assms(1) new_history_cursor_valid unfolding s by simp
  then have v: "cursor_valid (fst (run_history P start ops))"
    using assms(2) by (rule run_history_cursor_valid)
  show ?thesis
    using v currentState_valid [OF v] addState_appends [OF v] addState_throws [OF v] by blast
qed

lemma demo_new_history:
  "new_history demo_platform counter_heap (Ref 0) 1000 =
     Inr (\<lparr>states = [Some \<lparr>state = Ref 2, timestamp = 1000, label = Some ''Initial state''\<rparr>],
           currentIndex = 0\<rparr>,
          counter_heap @ [Object [(Name ''count'', Num (Fin 0))]])"
  by code_simp

lemma demo_whole_indices:
  "list_all whole_index
     [AddState (Ref 1) (Some ''patchState'') 1001, AddState (Ref 0) (Some ''setState'') 1002,
      GoBack, GoBack, GoToIndex (Finite 7), GoToIndex (Finite 1), GoToIndex NotANumber,
      AddState (Ref 1) None 1003, Clear, GoForward]"
  by (simp add: whole_def)

theorem history_log_cursor_witness:
  "new_history demo_platform counter_heap (Ref 0) 1000 =
     Inr (\<lparr>states = [Some \<lparr>state = Ref 2, timestamp = 1000, label = Some ''Initial state''\<rparr>],
           currentIndex = 0\<rparr>,
          counter_heap @ [Object [(Name ''count'', Num (Fin 0))]]) \<and>
   list_all whole_index
     [AddState (Ref 1) (Some ''patchState'') 1001, AddState (Ref 0) (Some ''setState'') 1002,
      GoBack, GoBack, GoToIndex (Finite 7), GoToIndex (Finite 1), GoToIndex NotANumber,
      AddState (Ref 1) None 1003, Clear, GoForward] \<and>
   cursor_valid (fst (run_history demo_platform
        (\<lparr>states = [Some \<lparr>state = Ref 2, timestamp = 1000, label = Some ''Initial state''\<rparr>],
          currentIndex = 0\<rparr>,
         counter_heap @ [Object [(Name ''count'', Num (Fin 0))]])
        [AddState (Ref 1) (Some ''patchState'') 1001, AddState (Ref 0) (Some ''setState'') 1002,
         GoBack, GoBack, GoToIndex (Finite 7), GoToIndex (Finite 1), GoToIndex NotANumber,
         AddState (Ref 1) None 1003, Clear, GoForward]))"
  using history_log_cursor [OF demo_new_history demo_whole_indices]
    demo_new_history demo_whole_indices
  by blast

text \<open>
  C1, as stated, fails when \<open>goToIndex\<close> is given a number that is not whole. On a log
  of three entries \<open>goToIndex(1.5)\<close> passes the guard and sets the cursor to 1.5, where
  the log has no entry: \<open>currentState\<close> throws. Two calls of \<open>goBack\<close> then bring the
  cursor to -0.5, below 0.
\<close>

theorem goToIndex_fraction:
  "new_history demo_platform counter_heap (Ref 0) 1000 = Inr counter_log \<and>
   length (states (fst (run_history demo_platform counter_log
      [AddState (Ref 1) (Some ''patchState'') 1001, AddState (Ref 0) (Some ''setState'') 1002,
       GoToIndex (Finite (3 / 2))]))) = 3 \<and>
   currentIndex (fst (run_history demo_platform counter_log
      [AddState (Ref 1) (Some ''patchState'') 1001, AddState (Ref 0) (Some ''setState'') 1002,
       GoToIndex (Finite (3 / 2))])) = 3 / 2 \<and>
   get_currentState (fst (run_history demo_platform counter_log
      [AddState (Ref 1) (Some ''patchState'') 1001, AddState (Ref 0) (Some ''setState'') 1002,
       GoToIndex (Finite (3 / 2))])) =
     Inl (JsError ''TypeError'' ''Cannot read properties of undefined or null'') \<and>
   currentIndex (fst (run_history demo_platform counter_log
      [AddState (Ref 1) (Some ''patchState'') 1001, AddState (Ref 0) (Some ''setState'') 1002,
       GoToIndex (Finite (3 / 2)), GoBack, GoBack])) = - 1 / 2 \<and>
   \<not> (0 \<le> currentIndex (fst (run_history demo_platform counter_log
      [AddState (Ref 1) (Some ''patchState'') 1001, AddState (Ref 0) (Some ''setState'') 1002,
       GoToIndex (Finite (3 / 2)), GoBack, GoBack])))"
  by code_simp

section \<open>The field binding: when the cell is written\<close>

text \<open>
  C5, as the code has it. A string that comes out of the debounced input stream is
  compared, as it is, with the string form of the cell (\<open>String(field() ?? '')\<close>). If
  they differ, the transform (when there is one) is applied and the result is written
  to the cell; if they are the same, nothing is written. The computed value is not
  compared with the cell.
\<close>

theorem on_value_writes_iff_raw_differs:
  "on_value text_of D raw =
     (if js_String text_of (nullish_or (field D) (Str '''')) = raw then (None, D)
      else (Some (case transform D of Some f \<Rightarrow> f raw | None \<Rightarrow> Str raw),
            D\<lparr>field := (case transform D of Some f \<Rightarrow> f raw | None \<Rightarrow> Str raw)\<rparr>))"
  by (simp add: on_value_def writeToSignal_def)

text \<open>
  C5, as stated, fails: with \<open>trim\<close> as the transform and the cell holding \<open>trimmed\<close>,
  the input \<open>trimmed\<close> followed by a blank is written to the cell, although the computed
  value is the value the cell has.
\<close>

theorem on_value_writes_equal_value:
  "fst (on_value object_text trimming ''trimmed '') = Some (Str ''trimmed'') \<and>
   field trimming = Str ''trimmed''"
  by (simp add: on_value_def writeToSignal_def nullish_or_def trim_def trimming_def)

section \<open>The validator: empty values\<close>

text \<open>
  C6. When the debounced, deduplicated value of the source is the empty string, \<open>null\<close>
  or \<open>undefined\<close>, \<open>validate\<close> is not called, the validator is not loading and the
  error signal is \<open>null\<close>; and it stays \<open>null\<close> whatever validation settles afterwards.
\<close>

theorem empty_value_not_validated:
  assumes "v = Str '''' \<or> v = Null \<or> v = Undefined"
  shows "calls (on_params V v) = calls V \<and> error (on_params V v) = Null \<and>
         \<not> isLoading (on_params V v) \<and>
         (\<forall>k r. calls (settle (on_params V v) k r) = calls V \<and>
                error (settle (on_params V v) k r) = Null)"
  using assms by (auto simp: on_params_def stream_def error_def nullish_or_def settle_def Let_def)

theorem empty_value_not_validated_witness:
  "calls (on_params \<lparr>calls = [Str ''ab''], request = 1, resource_value = Str ''taken'', isLoading = False\<rparr>
            (Str '''')) = [Str ''ab''] \<and>
   error (on_params \<lparr>calls = [Str ''ab''], request = 1, resource_value = Str ''taken'', isLoading = False\<rparr>
            (Str '''')) = Null"
  using empty_value_not_validated
    [of "Str ''''" "\<lparr>calls = [Str ''ab''], request = 1, resource_value = Str ''taken'', isLoading = False\<rparr>"]
  by simp

section \<open>Waiting for a state: when the promise settles\<close>

lemma poll_from_step:
  assumes "\<not> conditionFn c (fst (world i))" "snd (world i) - s < timeout_of opts"
  shows "poll_from c opts s world i = poll_from c opts s world (Suc i)"
  using assms by (subst poll_from.simps) (simp add: checkCondition_def)

lemma poll_from_skip:
  assumes "\<forall>j<k. \<not> conditionFn c (fst (world j)) \<and> snd (world j) - s < timeout_of opts"
  shows "i \<le> k \<Longrightarrow> poll_from c opts s world (k - i) = poll_from c opts s world k"
proof (induction i)
  case 0
  then show ?case by simp
next
  case (Suc i)
  then have lt: "k - Suc i < k" and eq: "Suc (k - Suc i) = k - i" by simp_all
  have "poll_from c opts s world (k - Suc i) = poll_from c opts s world (Suc (k - Suc i))"
    using assms lt by (intro poll_from_step) auto
  with Suc eq show ?case by simp
qed

lemma poll_from_resolves:
  "conditionFn c (fst (world k)) \<Longrightarrow> poll_from c opts s world k = Some (k, Resolved)"
  by (subst poll_from.simps) (simp add: checkCondition_def)

lemma poll_from_rejects:
  "\<not> conditionFn c (fst (world k)) \<Longrightarrow> snd (world k) - s \<ge> timeout_of opts \<Longrightarrow>
   poll_from c opts s world k = Some (k, Rejected (JsError ''Error'' (timeout_text opts)))"
  by (subst poll_from.simps) (simp add: checkCondition_def)

lemma waitForState_first:
  assumes "\<forall>j<k. \<not> conditionFn c (fst (world j)) \<and> snd (world j) - s < timeout_of opts"
  shows "waitForState c opts s world = poll_from c opts s world k"
  using poll_from_skip [OF assms, of k] by (simp add: waitForState_def)

lemma waitForState_total:
  assumes "conditionFn c (fst (world n)) \<or> snd (world n) - s \<ge> timeout_of opts"
  shows "waitForState c opts s world \<noteq> None"
proof -
  let ?Q = "\<lambda>k. conditionFn c (fst (world k)) \<or> snd (world k) - s \<ge> timeout_of opts"
  define k where "k = (LEAST k. ?Q k)"
  have q: "?Q k" unfolding k_def using assms by (rule LeastI)
  have "\<forall>j<k. \<not> ?Q j" unfolding k_def using not_less_Least by blast
  then have "\<forall>j<k. \<not> conditionFn c (fst (world j)) \<and> snd (world j) - s < timeout_of opts"
    by auto
  then have "waitForState c opts s world = poll_from c opts s world k"
    by (rule waitForState_first)
  with q show ?thesis
    by (cases "conditionFn c (fst (world k))") (simp_all add: poll_from_resolves poll_from_rejects)
qed

lemma exact_timers_reach_deadline:
  assumes "0 < d"
  shows "\<exists>n. (s + int n * d) - s \<ge> (t::int)"
proof -
  have "t \<le> int (nat t) * d"
  proof (cases "t \<le> 0")
    case True
    then show ?thesis using assms by simp
  next
    case False
    then have "t * 1 \<le> t * d" using assms by (intro mult_left_mono) auto
    with False show ?thesis by simp
  qed
  then show ?thesis by (intro exI [of _ "nat t"]) simp
qed

text \<open>
  C2, with the message as the code has it. Let run \<open>k\<close> be the first run of
  \<open>checkCondition\<close> that finds the condition true or the timeout used up (every run
  before it finds the condition false and less than \<open>timeout\<close> elapsed). If it finds
  the condition true the promise is resolved at that run; in particular the condition
  is checked at once, at run 0. Otherwise it is rejected at that run, with
  \<open>timeoutMessage\<close> when that is given and not the empty text, else with the default
  text naming the timeout. The wait settles as soon as one run finds the condition true
  or the timeout used up, and with exact timers of a positive interval such a run
  always comes. A run that settles the promise sets no timer; a run that does not
  settle it sets one timer, for the next run after \<open>interval\<close>. The timeout is 5000 and
  the interval 50 when not given, and as given otherwise. A message that is given and
  empty gives the default text, as no message does. A partial record holds when each
  listed field is \<open>===\<close> to the field of the state.
\<close>

theorem waitForState_settles:
  "(\<forall>k. (\<forall>j<k. \<not> conditionFn c (fst (world j)) \<and> snd (world j) - startTime < timeout_of opts) \<longrightarrow>
      (conditionFn c (fst (world k)) \<longrightarrow>
         waitForState c opts startTime world = Some (k, Resolved)) \<and>
      (\<not> conditionFn c (fst (world k)) \<and> snd (world k) - startTime \<ge> timeout_of opts \<longrightarrow>
         waitForState c opts startTime world =
           Some (k, Rejected (JsError ''Error'' (timeout_text opts))))) \<and>
   (conditionFn c (fst (world 0)) \<longrightarrow> waitForState c opts startTime world = Some (0, Resolved)) \<and>
   ((\<exists>n. conditionFn c (fst (world n)) \<or> snd (world n) - startTime \<ge> timeout_of opts) \<longrightarrow>
      waitForState c opts startTime world \<noteq> None) \<and>
   (0 < interval_of opts \<and> (\<forall>n. snd (world n) = startTime + int n * interval_of opts) \<longrightarrow>
      waitForState c opts startTime world \<noteq> None) \<and>
   (\<forall>st now. settle_with (checkCondition c opts startTime st now) \<noteq> None \<longrightarrow>
      timers (checkCondition c opts startTime st now) = []) \<and>
   (\<forall>st now. settle_with (checkCondition c opts startTime st now) = None \<longrightarrow>
      timers (checkCondition c opts startTime st now) = [interval_of opts]) \<and>
   (timeout opts = None \<longrightarrow> timeout_of opts = 5000) \<and>
   (interval opts = None \<longrightarrow> interval_of opts = 50) \<and>
   (\<forall>t. timeout opts = Some t \<longrightarrow> timeout_of opts = t) \<and>
   (\<forall>i. interval opts = Some i \<longrightarrow> interval_of opts = i) \<and>
   (\<forall>m. timeoutMessage opts = Some m \<and> m \<noteq> [] \<longrightarrow> timeout_text opts = m) \<and>
   (timeoutMessage opts = None \<or> timeoutMessage opts = Some [] \<longrightarrow>
      timeout_text opts =
        ''Timeout waiting for state condition after '' @ string_of_int (timeout_of opts) @ ''ms'') \<and>
   (\<forall>p st. conditionFn (Partial p) st \<longleftrightarrow> (\<forall>(key, v) \<in> set p. strict_eq (get_field st key) v))"
proof (intro conjI allI impI)
  fix k
  assume a: "\<forall>j<k. \<not> conditionFn c (fst (world j)) \<and> snd (world j) - startTime < timeout_of opts"
  {
    assume "conditionFn c (fst (world k))"
    then show "waitForState c opts startTime world = Some (k, Resolved)"
      by (simp add: waitForState_first [OF a] poll_from_resolves)
  next
    assume "\<not> conditionFn c (fst (world k)) \<and> snd (world k) - startTime \<ge> timeout_of opts"
    then show "waitForState c opts startTime world =
        Some (k, Rejected (JsError ''Error'' (timeout_text opts)))"
      by (simp add: waitForState_first [OF a] poll_from_rejects)
  }
next
  assume "conditionFn c (fst (world 0))"
  then show "waitForState c opts startTime world = Some (0, Resolved)"
    by (simp add: waitForState_def poll_from_resolves)
next
  assume "\<exists>n. conditionFn c (fst (world n)) \<or> snd (world n) - startTime \<ge> timeout_of opts"
  then show "waitForState c opts startTime world \<noteq> None"
    using waitForState_total by blast
next
  assume e: "0 < interval_of opts \<and> (\<forall>n. snd (world n) = startTime + int n * interval_of opts)"
  then obtain n where "(startTime + int n * interval_of opts) - startTime \<ge> timeout_of opts"
    using exact_timers_reach_deadline by blast
  with e have "snd (world n) - startTime \<ge> timeout_of opts" by simp
  then show "waitForState c opts startTime world \<noteq> None"
    using waitForState_total by blast
next
  fix st now
  assume "settle_with (checkCondition c opts startTime st now) \<noteq> None"
  then show "timers (checkCondition c opts startTime st now) = []"
    by (simp add: checkCondition_def split: if_splits)
next
  fix st now
  assume "settle_with (checkCondition c opts startTime st now) = None"
  then show "timers (checkCondition c opts startTime st now) = [interval_of opts]"
    by (simp add: checkCondition_def split: if_splits)
qed (auto simp: timeout_of_def interval_of_def timeout_text_def list_all_iff)

theorem waitForState_settles_witness:
  "waitForState count_is_5 default_wait 1000 counting_world = Some (3, Resolved)"
proof -
  have "\<forall>j<3. \<not> conditionFn count_is_5 (fst (counting_world j)) \<and>
               snd (counting_world j) - 1000 < timeout_of default_wait"
    by (simp add: count_is_5_def counting_world_def get_field_def timeout_of_def default_wait_def)
  moreover have "conditionFn count_is_5 (fst (counting_world 3))"
    by (simp add: count_is_5_def counting_world_def get_field_def)
  ultimately show ?thesis
    using waitForState_settles [of count_is_5 counting_world 1000 default_wait] by blast
qed

text \<open>
  C2, as stated, fails for a message that is given and empty: the wait is rejected with
  the default text.
\<close>

theorem timeout_message_empty:
  "timeoutMessage empty_message = Some '''' \<and>
   checkCondition count_is_5 empty_message 1000 [(Name ''count'', Num (Fin 0))] 1200 =
    \<lparr>settle_with = Some (Rejected (JsError ''Error'' ''Timeout waiting for state condition after 200ms'')),
     timers = []\<rparr>"
  by code_simp

section \<open>Calling a method of the store\<close>









section \<open>Plain data: frames\<close>

lemma lookup_append: "a < length h \<Longrightarrow> lookup (h @ ext) a = lookup h a"
  by (simp add: lookup_def nth_append)

lemma lookup_Some_less: "lookup h a = Some ob \<Longrightarrow> a < length h"
  by (simp add: lookup_def split: if_splits)

lemma lookup_new: "lookup (h @ [ob]) (length h) = Some ob"
  by (simp add: lookup_def)

lemma data_frame:
  assumes "data ok n B h v"
    and "\<And>a. a \<in> B \<Longrightarrow> a < length h \<Longrightarrow> lookup h' a = lookup h a"
    and "\<And>l. ok l \<Longrightarrow> ok' l"
    and "B \<subseteq> B'"
  shows "data ok' n B' h' v"
  using assms(1)
proof (induction n arbitrary: v)
  case 0
  then show ?case using assms(3) by (cases v) auto
next
  case (Suc n)
  show ?case
  proof (cases v)
    case (Ref a)
    with Suc.prems have aB: "a \<in> B" by simp
    from Ref Suc.prems obtain ob where ob: "lookup h a = Some ob"
      by (cases "lookup h a") auto
    then have l': "lookup h' a = Some ob"
      using assms(2) [OF aB] lookup_Some_less by fastforce
    show ?thesis
    proof (cases ob)
      case (Object kvs)
      with Ref Suc.prems ob have "distinct (map fst kvs)" "list_all (\<lambda>(key, v). data ok n B h v) kvs"
        by simp_all
      then have "list_all (\<lambda>(key, v). data ok' n B' h' v) kvs"
        using Suc.IH by (auto simp: list_all_iff)
      then show ?thesis
        using Ref Object l' aB assms(4) \<open>distinct (map fst kvs)\<close> by auto
    next
      case (Array xs)
      with Ref Suc.prems ob have "list_all (data ok n B h) xs" by simp
      then have "list_all (data ok' n B' h') xs"
        using Suc.IH by (auto simp: list_all_iff)
      then show ?thesis
        using Ref Array l' aB assms(4) by auto
    next
      case (Date t)
      then show ?thesis
        using Ref Suc.prems ob l' aB assms(3,4) by auto
    qed
  qed (use Suc.prems assms(3) in auto)
qed

lemma data_append: "data ok n B h v \<Longrightarrow> data ok n B (h @ ext) v"
  by (rule data_frame [where h = h and B = B and ok = ok]) (simp_all add: lookup_append)

lemma same_append: "same n h a b \<Longrightarrow> same n (h @ ext) a b"
proof (induction n arbitrary: a b)
  case 0
  then show ?case by (cases a; cases b) auto
next
  case (Suc n)
  show ?case
  proof (cases a)
    case ra: (Ref x)
    show ?thesis
    proof (cases b)
      case rb: (Ref y)
      from Suc.prems ra rb obtain oa ob where l: "lookup h x = Some oa" "lookup h y = Some ob"
        by (cases "lookup h x"; cases "lookup h y") (auto split: obj.splits)
      then have l': "lookup (h @ ext) x = Some oa" "lookup (h @ ext) y = Some ob"
        using lookup_Some_less lookup_append by metis+
      show ?thesis
        using Suc.prems ra rb l l' Suc.IH
        by (cases oa; cases ob) (auto elim!: list_all2_mono)
    qed (use Suc.prems ra in auto)
  qed (use Suc.prems in \<open>cases b; auto\<close>)+
qed

section \<open>Deep clone and deep equality on plain data\<close>

lemma strict_eq_refl: "v \<noteq> Num NaN \<Longrightarrow> strict_eq v v"
proof (cases v)
  case (Num x)
  then show "v \<noteq> Num NaN \<Longrightarrow> strict_eq v v" by (cases x) auto
qed auto

lemma same_append2: "same n (h @ e) a b \<Longrightarrow> same n (h @ e @ f) a b"
  using same_append [of n "h @ e" a b f] by simp

lemma thread_inv:
  assumes stable: "\<And>H e y x. Q H y x \<Longrightarrow> Q (H @ e) y x"
  shows "(\<And>x g. x \<in> set xs \<Longrightarrow> \<exists>y e. f (h @ g) x = Inr (y, h @ g @ e) \<and> Q (h @ g @ e) y x) \<Longrightarrow>
         \<exists>ys e. thread f (h @ g0) xs = Inr (ys, h @ g0 @ e) \<and> list_all2 (Q (h @ g0 @ e)) ys xs"
proof (induction xs arbitrary: g0)
  case Nil
  show ?case by (intro exI [of _ "[]"]) simp
next
  case (Cons x xs)
  from Cons.prems [of x g0] obtain y e1 where
    1: "f (h @ g0) x = Inr (y, h @ g0 @ e1)" and q: "Q (h @ g0 @ e1) y x"
    by auto
  from Cons.IH [of "g0 @ e1"] Cons.prems obtain ys e2 where
    2: "thread f (h @ g0 @ e1) xs = Inr (ys, h @ g0 @ e1 @ e2)"
    and qs: "list_all2 (Q (h @ g0 @ e1 @ e2)) ys xs"
    by auto
  have "Q (h @ g0 @ e1 @ e2) y x"
    using stable [OF q, of e2] by simp
  with 1 2 qs show ?case
    by (intro exI [of _ "y # ys"] exI [of _ "e1 @ e2"]) simp
qed

lemma data_region_append:
  assumes "data ok n {lo..<length H} H y"
  shows "data ok n {lo..<length (H @ e)} (H @ e) y"
  by (rule data_frame [OF assms]) (auto simp: lookup_append)

lemma data_region_shift:
  assumes "data ok n {length (h @ g)..<length (h @ g) + length e} ((h @ g) @ e) c"
  shows "data ok n {length h..<length (h @ g @ e)} (h @ g @ e) c"
  by (rule data_frame [OF assms]) auto

lemma deepClone_leaf:
  assumes "\<And>a. v \<noteq> Ref a"
  shows "deepClone_at None (Suc m) h v = Inr (v, h)"
  using assms by (cases v) auto

lemma deepClone_fallback:
  "data ok n B h v \<Longrightarrow> n < m \<Longrightarrow>
     \<exists>c ext. deepClone_at None m h v = Inr (c, h @ ext) \<and> same n (h @ ext) c v \<and>
              data ok n {length h..<length h + length ext} (h @ ext) c"
proof (induction n arbitrary: m h v)
  case 0
  then obtain m' where m: "m = Suc m'" by (cases m) auto
  from 0 have nr: "\<And>a. v \<noteq> Ref a" by auto
  then have "deepClone_at None m h v = Inr (v, h @ [])"
    using deepClone_leaf m by simp
  moreover have "same 0 (h @ []) v v" "data ok 0 {length h..<length h + length ([]::heap)} (h @ []) v"
    using nr 0 by (cases v; auto)+
  ultimately show ?case by blast
next
  case (Suc n)
  then obtain m' where m: "m = Suc m'" and nm: "n < m'" by (cases m) auto
  show ?case
  proof (cases "\<exists>a. v = Ref a")
    case False
    then have nr: "\<And>a. v \<noteq> Ref a" by auto
    then have "deepClone_at None m h v = Inr (v, h @ [])"
      using deepClone_leaf m by simp
    moreover have "same (Suc n) (h @ []) v v"
      "data ok (Suc n) {length h..<length h + length ([]::heap)} (h @ []) v"
      using nr Suc.prems by (cases v; auto)+
    ultimately show ?thesis by blast
  next
    case True
    then obtain a where v: "v = Ref a" by auto
    with Suc.prems obtain ob where ob: "lookup h a = Some ob"
      by (cases "lookup h a") auto
    then have al: "a < length h" by (rule lookup_Some_less)
    show ?thesis
    proof (cases ob)
      case (Date t)
      have "deepClone_at None m h v = Inr (Ref (length h), h @ [Date t])"
        using v ob Date m by (simp add: alloc_def)
      moreover have "same (Suc n) (h @ [Date t]) (Ref (length h)) v"
        using v ob Date al by (simp add: lookup_new lookup_append)
      moreover have "data ok (Suc n) {length h..<length h + length [Date t]} (h @ [Date t]) (Ref (length h))"
        using v ob Date Suc.prems by (simp add: lookup_new)
      ultimately show ?thesis by blast
    next
      case (Array xs)
      let ?f = "\<lambda>h1 item. deepClone_at None m' h1 item"
      let ?Q = "\<lambda>H y x. same n H y x \<and> data ok n {length h..<length H} H y"
      have xs: "list_all (data ok n B h) xs"
        using v ob Array Suc.prems by simp
      have stable: "\<And>H e y x. ?Q H y x \<Longrightarrow> ?Q (H @ e) y x"
        using same_append data_region_append by blast
      have step: "\<And>x g. x \<in> set xs \<Longrightarrow>
          \<exists>y e. ?f (h @ g) x = Inr (y, h @ g @ e) \<and> ?Q (h @ g @ e) y x"
      proof -
        fix x g
        assume "x \<in> set xs"
        with xs have "data ok n B h x" by (simp add: list_all_iff)
        then have "data ok n B (h @ g) x" by (rule data_append)
        from Suc.IH [OF this nm] obtain c e where
          c: "deepClone_at None m' (h @ g) x = Inr (c, (h @ g) @ e)"
          "same n ((h @ g) @ e) c x"
          "data ok n {length (h @ g)..<length (h @ g) + length e} ((h @ g) @ e) c"
          by blast
        from c(3) have "data ok n {length h..<length (h @ g @ e)} (h @ g @ e) c"
          by (rule data_region_shift)
        with c(1,2) show "\<exists>y e. ?f (h @ g) x = Inr (y, h @ g @ e) \<and> ?Q (h @ g @ e) y x"
          by auto
      qed
      from thread_inv [where Q = ?Q and f = ?f and h = h and xs = xs and ?g0.0 = "[]", OF stable step]
      obtain ys e where
        t: "thread ?f h xs = Inr (ys, h @ e)" and q: "list_all2 (?Q (h @ e)) ys xs"
        by auto
      have r: "deepClone_at None m h v = Inr (Ref (length (h @ e)), h @ (e @ [Array ys]))"
        using v ob Array m t by (simp add: alloc_def)
      from q have "list_all2 (same n ((h @ e) @ [Array ys])) ys xs"
        by (auto elim!: list_all2_mono intro: same_append2)
      then have s: "same (Suc n) (h @ (e @ [Array ys])) (Ref (length (h @ e))) v"
        using v ob Array al lookup_new [of "h @ e" "Array ys"]
          lookup_append [OF al, of "e @ [Array ys]"] by simp
      from q have "list_all (\<lambda>y. data ok n {length h..<length (h @ e)} (h @ e) y) ys"
        by (induction ys xs rule: list_all2_induct) auto
      then have "list_all (data ok n {length h..<length ((h @ e) @ [Array ys])} ((h @ e) @ [Array ys])) ys"
        unfolding list_all_iff using data_region_append by blast
      then have "list_all (data ok n {length h..<length h + length (e @ [Array ys])} (h @ e @ [Array ys])) ys"
        by (simp add: add.assoc)
      then have d: "data ok (Suc n) {length h..<length h + length (e @ [Array ys])}
                      (h @ (e @ [Array ys])) (Ref (length (h @ e)))"
        using lookup_new [of "h @ e" "Array ys"] by simp
      from r s d show ?thesis by blast
    next
      case (Object kvs)
      let ?f = "\<lambda>h1 (key, v). case deepClone_at None m' h1 v of
                   Inl e \<Rightarrow> Inl e | Inr (w, h2) \<Rightarrow> Inr ((key, w), h2)"
      let ?Q = "\<lambda>H y x. fst y = fst x \<and> same n H (snd y) (snd x) \<and>
                   data ok n {length h..<length H} H (snd y)"
      have kvs: "list_all (\<lambda>(key, v). data ok n B h v) kvs" and dk: "distinct (map fst kvs)"
        using v ob Object Suc.prems by simp_all
      have stable: "\<And>H e y x. ?Q H y x \<Longrightarrow> ?Q (H @ e) y x"
        using same_append data_region_append by blast
      have step: "\<And>x g. x \<in> set kvs \<Longrightarrow>
          \<exists>y e. ?f (h @ g) x = Inr (y, h @ g @ e) \<and> ?Q (h @ g @ e) y x"
      proof -
        fix x g
        assume xin: "x \<in> set kvs"
        obtain key w where x: "x = (key, w)" by (cases x)
        with xin kvs have "data ok n B h w" by (auto simp: list_all_iff)
        then have "data ok n B (h @ g) w" by (rule data_append)
        from Suc.IH [OF this nm] obtain c e where
          c: "deepClone_at None m' (h @ g) w = Inr (c, (h @ g) @ e)"
          "same n ((h @ g) @ e) c w"
          "data ok n {length (h @ g)..<length (h @ g) + length e} ((h @ g) @ e) c"
          by blast
        from c(3) have "data ok n {length h..<length (h @ g @ e)} (h @ g @ e) c"
          by (rule data_region_shift)
        with c(1,2) x show "\<exists>y e. ?f (h @ g) x = Inr (y, h @ g @ e) \<and> ?Q (h @ g @ e) y x"
          by auto
      qed
      from thread_inv [where Q = ?Q and f = ?f and h = h and xs = kvs and ?g0.0 = "[]", OF stable step]
      obtain cl e where
        t: "thread ?f h kvs = Inr (cl, h @ e)" and q: "list_all2 (?Q (h @ e)) cl kvs"
        by auto
      have r: "deepClone_at None m h v = Inr (Ref (length (h @ e)), h @ (e @ [Object cl]))"
        using v ob Object m t by (simp add: alloc_def)
      from q have keys: "map fst cl = map fst kvs"
        by (induction cl kvs rule: list_all2_induct) auto
      from q have "list_all2 (same n (h @ e)) (map snd cl) (map snd kvs)"
        by (induction cl kvs rule: list_all2_induct) auto
      then have "list_all2 (same n ((h @ e) @ [Object cl])) (map snd cl) (map snd kvs)"
        by (auto elim!: list_all2_mono intro: same_append2)
      then have s: "same (Suc n) (h @ (e @ [Object cl])) (Ref (length (h @ e))) v"
        using v ob Object al keys lookup_new [of "h @ e" "Object cl"]
          lookup_append [OF al, of "e @ [Object cl]"] by simp
      from q have "list_all (\<lambda>(key, y). data ok n {length h..<length (h @ e)} (h @ e) y) cl"
        by (induction cl kvs rule: list_all2_induct) auto
      then have "list_all (\<lambda>(key, y). data ok n {length h..<length ((h @ e) @ [Object cl])}
                    ((h @ e) @ [Object cl]) y) cl"
        unfolding list_all_iff using data_region_append by blast
      then have "list_all (\<lambda>(key, y). data ok n {length h..<length h + length (e @ [Object cl])}
                    (h @ e @ [Object cl]) y) cl"
        by (simp add: add.assoc)
      then have d: "data ok (Suc n) {length h..<length h + length (e @ [Object cl])}
                      (h @ (e @ [Object cl])) (Ref (length (h @ e)))"
        using lookup_new [of "h @ e" "Object cl"] keys dk by simp
      from r s d show ?thesis by blast
    qed
  qed
qed

lemma every_key_True: "(\<And>key. key \<in> set keys \<Longrightarrow> f key = Inr True) \<Longrightarrow> every_key f keys = Inr True"
  by (induction keys) auto

lemma assoc_related:
  assumes "map fst kas = map fst kbs" and "list_all2 R (map snd kas) (map snd kbs)"
    and "key \<in> fst ` set kas"
  shows "\<exists>va vb. map_of kas key = Some va \<and> map_of kbs key = Some vb \<and> R va vb \<and>
           (key, vb) \<in> set kbs"
  using assms
proof (induction kas arbitrary: kbs)
  case Nil
  then show ?case by simp
next
  case (Cons ka kas)
  then obtain kb kbs' where kbs: "kbs = kb # kbs'" by (cases kbs) auto
  obtain k1 v1 where ka: "ka = (k1, v1)" by (cases ka)
  obtain k2 v2 where kb: "kb = (k2, v2)" by (cases kb)
  from Cons.prems kbs ka kb have eq: "k1 = k2" "map fst kas = map fst kbs'"
    and r: "R v1 v2" "list_all2 R (map snd kas) (map snd kbs')"
    by simp_all
  show ?case
  proof (cases "key = k1")
    case True
    then show ?thesis using kbs ka kb eq r by simp
  next
    case False
    with Cons.prems(3) ka have "key \<in> fst ` set kas" by auto
    from Cons.IH [OF eq(2) r(2) this] show ?thesis
      using False kbs ka kb eq by auto
  qed
qed

lemma same_isEqual:
  "same n h a b \<Longrightarrow> data sound n B h b \<Longrightarrow> n < m \<Longrightarrow> isEqual m h a b = Inr True"
proof (induction n arbitrary: m a b)
  case 0
  then obtain m' where m: "m = Suc m'" by (cases m) auto
  from 0 have nr: "\<And>y. b \<noteq> Ref y" by (cases b) auto
  with 0 have ab: "a = b" by (cases a; cases b) auto
  from 0 nr have "b \<noteq> Num NaN" by (cases b) auto
  then show ?case using ab m strict_eq_refl by simp
next
  case (Suc n)
  then obtain m' where m: "m = Suc m'" and nm: "n < m'" by (cases m) auto
  show ?case
  proof (cases "\<exists>y. b = Ref y")
    case False
    then have nr: "\<And>y. b \<noteq> Ref y" by auto
    with Suc.prems have ab: "a = b" by (cases a; cases b) auto
    from Suc.prems nr have "b \<noteq> Num NaN" by (cases b) auto
    then show ?thesis using ab m strict_eq_refl by simp
  next
    case True
    then obtain y where b: "b = Ref y" by auto
    with Suc.prems(1) obtain x where a: "a = Ref x" by (cases a) auto
    from Suc.prems(1) a b obtain oa ob where l: "lookup h x = Some oa" "lookup h y = Some ob"
      by (cases "lookup h x"; cases "lookup h y") (auto split: obj.splits)
    show ?thesis
    proof (cases "x = y")
      case True
      then show ?thesis using a b m by simp
    next
      case False
      then have ne: "\<not> strict_eq a b" using a b by simp
      show ?thesis
      proof (cases ob)
        case (Date t)
        with Suc.prems a b l obtain s where oa: "oa = Date s" and st: "s = t"
          by (cases oa) auto
        from Suc.prems(2) b l Date have "t \<noteq> NaN" by (cases t) auto
        then have "num_eq s t" using st by (cases t) auto
        then show ?thesis using a b m l oa Date False by simp
      next
        case (Array ys)
        with Suc.prems a b l obtain xs where oa: "oa = Array xs" and s: "list_all2 (same n h) xs ys"
          by (cases oa) auto
        from Suc.prems(2) b l Array have d: "list_all (data sound n B h) ys" by simp
        have len: "length xs = length ys" using s by (rule list_all2_lengthD)
        have "every_key (\<lambda>key. if key \<notin> set (own_keys ob) then Inr False
                               else isEqual m' h (get_prop oa key) (get_prop ob key)) (own_keys oa)
                = Inr True"
        proof (rule every_key_True)
          fix key
          assume "key \<in> set (own_keys oa)"
          then obtain i where i: "key = Idx i" "i < length xs" using oa by auto
          then have "same n h (xs ! i) (ys ! i)" using s by (simp add: list_all2_nthD)
          moreover have "data sound n B h (ys ! i)" using d i len by (simp add: list_all_length)
          ultimately have "isEqual m' h (xs ! i) (ys ! i) = Inr True"
            using Suc.IH nm by blast
          then show "(if key \<notin> set (own_keys ob) then Inr False
                      else isEqual m' h (get_prop oa key) (get_prop ob key)) = Inr True"
            using i oa Array len by simp
        qed
        then show ?thesis using a b m l False len unfolding oa Array by simp
      next
        case (Object kbs)
        with Suc.prems a b l obtain kas where oa: "oa = Object kas"
          and keys: "map fst kas = map fst kbs"
          and s: "list_all2 (same n h) (map snd kas) (map snd kbs)"
          by (cases oa) auto
        from Suc.prems(2) b l Object have d: "list_all (\<lambda>(key, v). data sound n B h v) kbs" by simp
        have len: "length kas = length kbs" using keys by (metis length_map)
        have "every_key (\<lambda>key. if key \<notin> set (own_keys ob) then Inr False
                               else isEqual m' h (get_prop oa key) (get_prop ob key)) (own_keys oa)
                = Inr True"
        proof (rule every_key_True)
          fix key
          assume k: "key \<in> set (own_keys oa)"
          then have "key \<in> fst ` set kas" using oa by simp
          from assoc_related [OF keys s this] obtain va vb where
            v: "map_of kas key = Some va" "map_of kbs key = Some vb" "same n h va vb"
            "(key, vb) \<in> set kbs"
            by blast
          from v(4) d have "data sound n B h vb" by (auto simp: list_all_iff)
          with v(3) have "isEqual m' h va vb = Inr True"
            using Suc.IH nm by blast
          then show "(if key \<notin> set (own_keys ob) then Inr False
                      else isEqual m' h (get_prop oa key) (get_prop ob key)) = Inr True"
            using k oa Object keys v by simp
        qed
        then show ?thesis using a b m l False len unfolding oa Object by simp
      qed
    qed
  qed
qed

section \<open>The array wrapper: push, then remove the last\<close>







section \<open>The tracker: reset\<close>

lemma fallback_clones: "clones N (deepClone_at None (Suc N))"
  unfolding clones_def
proof (intro allI impI)
  fix n h v
  assume a: "n \<le> N \<and> data no_function n UNIV h v"
  then have d: "data no_function n UNIV h v" by simp
  have "data (\<lambda>l. True) n UNIV h v"
    by (rule data_frame [OF d]) simp_all
  moreover have "n < Suc N" using a by simp
  ultimately show "\<exists>c ext. deepClone_at None (Suc N) h v = Inr (c, h @ ext) \<and> same n (h @ ext) c v \<and>
      data (\<lambda>l. True) n {length h..<length h + length ext} (h @ ext) c"
    by (rule deepClone_fallback)
qed

lemma deepClone_copies:
  assumes env: "case structuredClone E of None \<Rightarrow> True | Some sc \<Rightarrow> clones n sc"
    and d: "data sound n B h v"
    and fuel: "n < stack_depth E"
  shows "\<exists>c ext. deepClone E h v = Inr (c, h @ ext) \<and> same n (h @ ext) c v \<and>
           data (\<lambda>l. True) n {length h..<length h + length ext} (h @ ext) c"
proof (cases "structuredClone E")
  case None
  have "data (\<lambda>l. True) n B h v"
    by (rule data_frame [OF d]) simp_all
  from deepClone_fallback [OF this fuel] show ?thesis
    using None by (simp add: deepClone_def)
next
  case (Some sc)
  with env have c: "clones n sc" by simp
  have nf: "\<And>l. sound l \<Longrightarrow> no_function l"
  proof -
    fix l
    show "sound l \<Longrightarrow> no_function l"
      by (cases l rule: no_function.cases) auto
  qed
  have "data no_function n UNIV h v"
    by (rule data_frame [OF d]) (simp_all add: nf)
  with c have "\<exists>c' ext. sc h v = Inr (c', h @ ext) \<and> same n (h @ ext) c' v \<and>
    data (\<lambda>l. True) n {length h..<length h + length ext} (h @ ext) c'"
    unfolding clones_def by (elim allE [of _ n] allE [of _ h] allE [of _ v]) simp
  moreover from fuel obtain m where "stack_depth E = Suc m" by (cases "stack_depth E") auto
  ultimately show ?thesis
    using Some by (simp add: deepClone_def)
qed

lemma reset_copies:
  assumes env: "case structuredClone E of None \<Rightarrow> True | Some sc \<Rightarrow> clones n sc"
    and fuel: "n < stack_depth E"
    and b: "baseline T = Ref b"
    and d: "data sound n B h (baseline T)"
  shows "\<exists>c ext. reset E T h = (None, T\<lparr>source := c\<rparr>, h @ ext) \<and>
           same n (h @ ext) c (baseline T) \<and>
           data (\<lambda>l. True) n {length h..<length h + length ext} (h @ ext) c \<and>
           isEqual (stack_depth E) (h @ ext) c (baseline T) = Inr True"
proof -
  from deepClone_copies [OF env d fuel] obtain c ext where
    c: "deepClone E h (baseline T) = Inr (c, h @ ext)" "same n (h @ ext) c (baseline T)"
    "data (\<lambda>l. True) n {length h..<length h + length ext} (h @ ext) c"
    by blast
  have "data sound n B (h @ ext) (baseline T)"
    using d by (rule data_append)
  with c(2) have "isEqual (stack_depth E) (h @ ext) c (baseline T) = Inr True"
    using fuel by (rule same_isEqual)
  moreover have "reset E T h = (None, T\<lparr>source := c\<rparr>, h @ ext)"
    using b c(1) by (simp add: reset_def)
  ultimately show ?thesis using c(2,3) by blast
qed

text \<open>
  C8, for a baseline without \<open>NaN\<close>. Let the baseline be a record or an array that is
  plain data without \<open>NaN\<close> (as a number or as the time of a date), nested less deep
  than the call stack allows, and let \<open>B\<close> be the addresses of its objects; where the
  platform has \<open>structuredClone\<close>, let it copy data nested that deep. Then
  \<open>reset\<close> returns, and the value it gives the source is deeply equal to the baseline
  (\<open>isEqual\<close> is true, \<open>isDirty\<close> is false) and is made of new objects only, none of
  them an object of the baseline. Whatever is then done to these new objects, or to objects made later, the
  objects of the baseline are as they were, and another \<open>reset\<close> gives the source a
  value that is deeply equal to the baseline and has the structure and the leaves the
  baseline had.
\<close>

theorem reset_restores_baseline:
  assumes env: "case structuredClone E of None \<Rightarrow> True | Some sc \<Rightarrow> clones n sc"
    and fuel: "n < stack_depth E"
    and b: "baseline T = Ref b"
    and d: "data sound n B h (baseline T)"
    and B: "\<forall>a\<in>B. a < length h"
  shows "\<exists>c ext. reset E T h = (None, T\<lparr>source := c\<rparr>, h @ ext) \<and>
           isEqual (stack_depth E) (h @ ext) c (baseline T) = Inr True \<and>
           isDirty E (T\<lparr>source := c\<rparr>) (h @ ext) = Inr False \<and>
           data (\<lambda>l. True) n {length h..<length h + length ext} (h @ ext) c \<and>
           B \<inter> {length h..<length h + length ext} = {} \<and>
           (\<forall>h2 v. (\<forall>a<length h. lookup h2 a = lookup h a) \<longrightarrow>
              (\<forall>a\<in>B. lookup h2 a = lookup h a) \<and>
              (\<exists>c2 ext2. reset E (T\<lparr>source := v\<rparr>) h2 = (None, T\<lparr>source := c2\<rparr>, h2 @ ext2) \<and>
                 isEqual (stack_depth E) (h2 @ ext2) c2 (baseline T) = Inr True \<and>
                 same n (h2 @ ext2) c2 (baseline T) \<and>
                 (\<forall>a\<in>B. lookup (h2 @ ext2) a = lookup h a)))"
proof -
  from reset_copies [OF env fuel b d] obtain c ext where
    r: "reset E T h = (None, T\<lparr>source := c\<rparr>, h @ ext)"
    "data (\<lambda>l. True) n {length h..<length h + length ext} (h @ ext) c"
    "isEqual (stack_depth E) (h @ ext) c (baseline T) = Inr True"
    by blast
  have clean: "isDirty E (T\<lparr>source := c\<rparr>) (h @ ext) = Inr False"
    using r(3) by (simp add: isDirty_def)
  have disj: "B \<inter> {length h..<length h + length ext} = {}"
    using B by fastforce
  have later: "\<forall>h2 v. (\<forall>a<length h. lookup h2 a = lookup h a) \<longrightarrow>
              (\<forall>a\<in>B. lookup h2 a = lookup h a) \<and>
              (\<exists>c2 ext2. reset E (T\<lparr>source := v\<rparr>) h2 = (None, T\<lparr>source := c2\<rparr>, h2 @ ext2) \<and>
                 isEqual (stack_depth E) (h2 @ ext2) c2 (baseline T) = Inr True \<and>
                 same n (h2 @ ext2) c2 (baseline T) \<and>
                 (\<forall>a\<in>B. lookup (h2 @ ext2) a = lookup h a))"
  proof (intro allI impI)
    fix h2 v
    assume a: "\<forall>a<length h. lookup h2 a = lookup h a"
    with B have agree: "\<forall>a\<in>B. lookup h2 a = lookup h a" by blast
    have d2: "data sound n B h2 (baseline T)"
      by (rule data_frame [OF d]) (use agree in auto)
    have b2: "baseline (T\<lparr>source := v\<rparr>) = Ref b" using b by simp
    have d2': "data sound n B h2 (baseline (T\<lparr>source := v\<rparr>))" using d2 by simp
    have "\<exists>c2 ext2. reset E (T\<lparr>source := v\<rparr>) h2 = (None, T\<lparr>source := c2\<rparr>, h2 @ ext2) \<and>
            same n (h2 @ ext2) c2 (baseline T) \<and>
            isEqual (stack_depth E) (h2 @ ext2) c2 (baseline T) = Inr True"
      using reset_copies [OF env fuel b2 d2'] by simp blast
    then obtain c2 ext2 where
      r2: "reset E (T\<lparr>source := v\<rparr>) h2 = (None, T\<lparr>source := c2\<rparr>, h2 @ ext2)"
      "same n (h2 @ ext2) c2 (baseline T)"
      "isEqual (stack_depth E) (h2 @ ext2) c2 (baseline T) = Inr True"
      by blast
    have "\<forall>a\<in>B. lookup (h2 @ ext2) a = lookup h a"
    proof
      fix a
      assume aB: "a \<in> B"
      with B have "a < length h" by blast
      then have "lookup h a \<noteq> None" by (simp add: lookup_def)
      with agree aB have "lookup h2 a \<noteq> None" by simp
      then have "a < length h2" by (simp add: lookup_def split: if_splits)
      then show "lookup (h2 @ ext2) a = lookup h a"
        using agree aB by (simp add: lookup_append)
    qed
    then have "\<exists>c2 ext2. reset E (T\<lparr>source := v\<rparr>) h2 = (None, T\<lparr>source := c2\<rparr>, h2 @ ext2) \<and>
                 isEqual (stack_depth E) (h2 @ ext2) c2 (baseline T) = Inr True \<and>
                 same n (h2 @ ext2) c2 (baseline T) \<and>
                 (\<forall>a\<in>B. lookup (h2 @ ext2) a = lookup h a)"
      using r2 by (intro exI [of _ c2] exI [of _ ext2]) simp
    with agree show "(\<forall>a\<in>B. lookup h2 a = lookup h a) \<and>
              (\<exists>c2 ext2. reset E (T\<lparr>source := v\<rparr>) h2 = (None, T\<lparr>source := c2\<rparr>, h2 @ ext2) \<and>
                 isEqual (stack_depth E) (h2 @ ext2) c2 (baseline T) = Inr True \<and>
                 same n (h2 @ ext2) c2 (baseline T) \<and>
                 (\<forall>a\<in>B. lookup (h2 @ ext2) a = lookup h a))"
      by (rule conjI)
  qed
  show ?thesis
    by (intro exI [of _ c] exI [of _ ext] conjI r(1) r(3) clean r(2) disj later)
qed

theorem reset_restores_baseline_witness:
  "baseline form_tracker = Ref 0 \<and> data sound (Suc 0) {0} form_heap (baseline form_tracker) \<and>
   (\<exists>c ext. reset demo_environment form_tracker form_heap = (None, form_tracker\<lparr>source := c\<rparr>, form_heap @ ext) \<and>
      isEqual (stack_depth demo_environment) (form_heap @ ext) c (baseline form_tracker) = Inr True) \<and>
   (\<exists>c ext. reset native_environment form_tracker form_heap = (None, form_tracker\<lparr>source := c\<rparr>, form_heap @ ext) \<and>
      isEqual (stack_depth native_environment) (form_heap @ ext) c (baseline form_tracker) = Inr True)"
proof -
  have 1: "case structuredClone demo_environment of None \<Rightarrow> True | Some sc \<Rightarrow> clones (Suc 0) sc"
    by (simp add: demo_environment_def)
  have n1: "case structuredClone native_environment of None \<Rightarrow> True | Some sc \<Rightarrow> clones (Suc 0) sc"
    using fallback_clones [of "Suc 0"] by (simp add: native_environment_def)
  have 2: "Suc 0 < stack_depth demo_environment" and n2: "Suc 0 < stack_depth native_environment"
    by (simp_all add: demo_environment_def native_environment_def)
  have 3: "baseline form_tracker = Ref 0"
    by (simp add: form_tracker_def)
  have 4: "data sound (Suc 0) {0} form_heap (baseline form_tracker)"
    by (simp add: form_tracker_def form_heap_def lookup_def)
  have 5: "\<forall>a\<in>{0}. a < length form_heap"
    by (simp add: form_heap_def)
  have a: "\<exists>c ext. reset demo_environment form_tracker form_heap = (None, form_tracker\<lparr>source := c\<rparr>, form_heap @ ext) \<and>
      isEqual (stack_depth demo_environment) (form_heap @ ext) c (baseline form_tracker) = Inr True"
    using reset_restores_baseline [OF 1 2 3 4 5]
    by (elim exE conjE, intro exI conjI) assumption+
  have b: "\<exists>c ext. reset native_environment form_tracker form_heap = (None, form_tracker\<lparr>source := c\<rparr>, form_heap @ ext) \<and>
      isEqual (stack_depth native_environment) (form_heap @ ext) c (baseline form_tracker) = Inr True"
    using reset_restores_baseline [OF n1 n2 3 4 5]
    by (elim exE conjE, intro exI conjI) assumption+
  from 3 4 a b show ?thesis by (intro conjI)
qed

text \<open>
  C8, as stated, fails for a form whose age is \<open>NaN\<close>: the tracker made for it has a
  copy of the form as its baseline, \<open>reset\<close> gives the source a copy of the baseline,
  and \<open>isEqual\<close> of the two is false.
\<close>

theorem reset_NaN_not_equal:
  "new_tracker demo_environment (Ref 0) nan_heap =
     (None, \<lparr>baseline = Ref 1, source = Ref 0\<rparr>, nan_heap @ [Object [(Name ''age'', Num NaN)]]) \<and>
   reset demo_environment \<lparr>baseline = Ref 1, source = Ref 0\<rparr> (nan_heap @ [Object [(Name ''age'', Num NaN)]]) =
     (None, \<lparr>baseline = Ref 1, source = Ref 2\<rparr>,
      nan_heap @ [Object [(Name ''age'', Num NaN)], Object [(Name ''age'', Num NaN)]]) \<and>
   isEqual (stack_depth demo_environment)
      (nan_heap @ [Object [(Name ''age'', Num NaN)], Object [(Name ''age'', Num NaN)]]) (Ref 2) (Ref 1)
     = Inr False"
  by code_simp

section \<open>Deep equality and diff of a value with itself\<close>

lemma read_prop_returns:
  assumes "\<And>a. s = Ref a \<Longrightarrow> a < length h" and "\<not> falsy s"
  shows "\<exists>v. read_prop h s key = Inr v"
proof (cases s)
  case (Ref a)
  with assms(1) show ?thesis by (simp add: lookup_def)
next
  case (Str t)
  then show ?thesis by (cases key) auto
qed (use assms(2) in auto)

lemma value_keys_returns:
  assumes "\<And>a. s = Ref a \<Longrightarrow> a < length h" and "\<not> falsy s"
  shows "\<exists>keys. value_keys h s = Inr keys"
proof (cases s)
  case (Ref a)
  with assms(1) show ?thesis by (simp add: lookup_def)
qed (use assms(2) in auto)

lemma diff_keys_unchanged:
  assumes "\<And>key. \<exists>v. read_prop h s key = Inr v \<and> v \<noteq> Num NaN"
  shows "diff_keys (Suc n) h s s keys d = Inr d"
proof (induction keys)
  case Nil
  show ?case by simp
next
  case (Cons key keys)
  from assms [of key] obtain v where v: "read_prop h s key = Inr v" "v \<noteq> Num NaN"
    by blast
  then have "isEqual (Suc n) h v v = Inr True"
    by (simp add: strict_eq_refl)
  with v Cons show ?case by simp
qed

lemma getDiff_same_value:
  assumes r: "\<And>a. s = Ref a \<Longrightarrow> a < length h"
    and nn: "\<And>key v. read_prop h s key = Inr v \<Longrightarrow> v \<noteq> Num NaN"
  shows "getDiff (Suc n) h s s = Inr []"
proof (cases "falsy s")
  case True
  then show ?thesis by (simp add: getDiff_def)
next
  case False
  from value_keys_returns [OF r False] obtain keys where k: "value_keys h s = Inr keys"
    by blast
  have "\<And>key. \<exists>v. read_prop h s key = Inr v \<and> v \<noteq> Num NaN"
    using read_prop_returns [OF r False] nn by blast
  then have "diff_keys (Suc n) h s s keys [] = Inr []"
    by (rule diff_keys_unchanged)
  with False k show ?thesis by (simp add: getDiff_def)
qed

text \<open>
  C3, without \<open>NaN\<close>. For every value \<open>s\<close> other than \<open>NaN\<close>, \<open>isEqual(s, s)\<close> is true.
  For every value \<open>s\<close> none of whose properties is \<open>NaN\<close>, \<open>diff(s, s)\<close> is the empty
  record. And for two values with the same structure and the same leaves, such as a
  snapshot and its deep clone, \<open>isEqual\<close> is true when they are plain data without
  \<open>NaN\<close> (as a number or as the time of a date) and the call stack is deep enough.
\<close>

theorem isEqual_getDiff_reflexive:
  "(s \<noteq> Num NaN \<longrightarrow> isEqual (Suc n) h s s = Inr True) \<and>
   ((\<forall>a. s = Ref a \<longrightarrow> a < length h) \<and> (\<forall>key v. read_prop h s key = Inr v \<longrightarrow> v \<noteq> Num NaN) \<longrightarrow>
      getDiff (Suc n) h s s = Inr []) \<and>
   (same n h a b \<and> data sound n B h b \<and> n < m \<longrightarrow> isEqual m h a b = Inr True)"
proof (intro conjI impI)
  assume "s \<noteq> Num NaN"
  then show "isEqual (Suc n) h s s = Inr True"
    by (simp add: strict_eq_refl)
next
  assume "(\<forall>a. s = Ref a \<longrightarrow> a < length h) \<and> (\<forall>key v. read_prop h s key = Inr v \<longrightarrow> v \<noteq> Num NaN)"
  then show "getDiff (Suc n) h s s = Inr []"
    using getDiff_same_value by blast
next
  assume "same n h a b \<and> data sound n B h b \<and> n < m"
  then show "isEqual m h a b = Inr True"
    using same_isEqual by blast
qed

theorem isEqual_getDiff_reflexive_witness:
  "isEqual (Suc 0) form_heap (Ref 0) (Ref 0) = Inr True \<and>
   getDiff (Suc 0) form_heap (Ref 0) (Ref 0) = Inr [] \<and>
   same (Suc 0) form_heap (Ref 0) (Ref 0) \<and> data sound (Suc 0) UNIV form_heap (Ref 0) \<and>
   isEqual (Suc (Suc 0)) form_heap (Ref 0) (Ref 0) = Inr True"
proof -
  have 1: "Ref 0 \<noteq> Num NaN" by simp
  have 2: "\<forall>a. Ref 0 = Ref a \<longrightarrow> a < length form_heap"
    by (simp add: form_heap_def)
  have 3: "\<forall>key v. read_prop form_heap (Ref 0) key = Inr v \<longrightarrow> v \<noteq> Num NaN"
    by (auto simp: form_heap_def lookup_def split: option.splits)
  have 4: "same (Suc 0) form_heap (Ref 0) (Ref 0)"
    by (simp add: form_heap_def lookup_def)
  have 5: "data sound (Suc 0) UNIV form_heap (Ref 0)"
    by (simp add: form_heap_def lookup_def)
  have 6: "Suc 0 < Suc (Suc 0)" by simp
  show ?thesis
    using isEqual_getDiff_reflexive [of "Ref 0" 0 form_heap "Ref 0" "Ref 0" UNIV "Suc (Suc 0)"]
      isEqual_getDiff_reflexive [of "Ref 0" "Suc 0" form_heap "Ref 0" "Ref 0" UNIV "Suc (Suc 0)"]
      1 2 3 4 5 6
    by blast
qed

text \<open>
  C3, as stated, fails: \<open>isEqual(NaN, NaN)\<close> is false, and the diff of a form whose age
  is \<open>NaN\<close> with itself is not empty.
\<close>

theorem isEqual_getDiff_NaN:
  "isEqual (Suc 0) nan_heap (Num NaN) (Num NaN) = Inr False \<and>
   getDiff (Suc 0) nan_heap (Ref 0) (Ref 0) = Inr [(Name ''age'', Num NaN)]"
  by (simp add: nan_heap_def getDiff_def lookup_def set_prop_def)

section \<open>The tracker: dirty fields\<close>












section \<open>History entries are deep copies\<close>

lemma denotes_frame:
  "denotes h A v j \<Longrightarrow> (\<And>a. a \<in> A \<Longrightarrow> lookup h' a = lookup h a) \<Longrightarrow> A \<subseteq> A' \<Longrightarrow>
     denotes h' A' v j"
  "denotes_elems h A vs js \<Longrightarrow> (\<And>a. a \<in> A \<Longrightarrow> lookup h' a = lookup h a) \<Longrightarrow> A \<subseteq> A' \<Longrightarrow>
     denotes_elems h' A' vs js"
  "denotes_fields h A kvs fs \<Longrightarrow> (\<And>a. a \<in> A \<Longrightarrow> lookup h' a = lookup h a) \<Longrightarrow> A \<subseteq> A' \<Longrightarrow>
     denotes_fields h' A' kvs fs"
proof (induction h A v j and h A vs js and h A kvs fs
    rule: denotes_denotes_elems_denotes_fields.induct)
  case (5 h A v js)
  then show ?case
    by (auto split: val.splits option.splits obj.splits)
next
  case (6 h A v fs)
  then show ?case
    by (auto split: val.splits option.splits obj.splits)
next
  case (8 h A vs j js)
  then show ?case
    by (auto split: list.splits)
next
  case (10 h A kvs key j fs)
  then show ?case
    by (auto split: list.splits)
qed auto

lemma denotes_region:
  assumes "denotes H {lo..<length H} v j" and "lo' \<le> lo"
  shows "denotes (H @ e) {lo'..<length (H @ e)} v j"
  by (rule denotes_frame(1) [OF assms(1)]) (use assms(2) in \<open>auto simp: lookup_append\<close>)

lemma denotes_elems_region:
  assumes "denotes_elems H {lo..<length H} vs js" and "lo' \<le> lo"
  shows "denotes_elems (H @ e) {lo'..<length (H @ e)} vs js"
  by (rule denotes_frame(2) [OF assms(1)]) (use assms(2) in \<open>auto simp: lookup_append\<close>)

lemma denotes_fields_region:
  assumes "denotes_fields H {lo..<length H} kvs fs" and "lo' \<le> lo"
  shows "denotes_fields (H @ e) {lo'..<length (H @ e)} kvs fs"
  by (rule denotes_frame(3) [OF assms(1)]) (use assms(2) in \<open>auto simp: lookup_append\<close>)

lemma parse_denotes:
  "parse j h = (v, h') \<Longrightarrow> (\<exists>ext. h' = h @ ext) \<and> denotes h' {length h..<length h'} v j"
  "parse_elems js h = (vs, h') \<Longrightarrow> (\<exists>ext. h' = h @ ext) \<and> denotes_elems h' {length h..<length h'} vs js"
  "parse_fields fs h = (kvs, h') \<Longrightarrow> (\<exists>ext. h' = h @ ext) \<and> denotes_fields h' {length h..<length h'} kvs fs"
proof (induction j h and js h and fs h arbitrary: v h' and vs h' and kvs h'
    rule: parse_parse_elems_parse_fields.induct)
  case (5 js h)
  obtain vs h1 where p: "parse_elems js h = (vs, h1)" by (cases "parse_elems js h")
  from 5(1) [OF p] obtain ext where e: "h1 = h @ ext"
    and d: "denotes_elems h1 {length h..<length h1} vs js" by blast
  from 5(2) p have r: "v = Ref (length h1)" "h' = h1 @ [Array vs]"
    by (simp_all add: alloc_def)
  have "denotes_elems (h1 @ [Array vs]) {length h..<length (h1 @ [Array vs])} vs js"
    using d by (rule denotes_elems_region) simp
  moreover have "length h \<le> length h1" using e by simp
  ultimately have "denotes h' {length h..<length h'} v (JArr js)"
    using r by (simp add: lookup_new)
  moreover have "\<exists>ext. h' = h @ ext" using r e by simp
  ultimately show ?case by blast
next
  case (6 fs h)
  obtain kvs h1 where p: "parse_fields fs h = (kvs, h1)" by (cases "parse_fields fs h")
  from 6(1) [OF p] obtain ext where e: "h1 = h @ ext"
    and d: "denotes_fields h1 {length h..<length h1} kvs fs" by blast
  from 6(2) p have r: "v = Ref (length h1)" "h' = h1 @ [Object kvs]"
    by (simp_all add: alloc_def)
  have "denotes_fields (h1 @ [Object kvs]) {length h..<length (h1 @ [Object kvs])} kvs fs"
    using d by (rule denotes_fields_region) simp
  moreover have "length h \<le> length h1" using e by simp
  ultimately have "denotes h' {length h..<length h'} v (JObj fs)"
    using r by (simp add: lookup_new)
  moreover have "\<exists>ext. h' = h @ ext" using r e by simp
  ultimately show ?case by blast
next
  case (8 j js h)
  obtain v1 h1 where p1: "parse j h = (v1, h1)" by (cases "parse j h")
  obtain vs2 h2 where p2: "parse_elems js h1 = (vs2, h2)" by (cases "parse_elems js h1")
  from 8(1) [OF p1] obtain e1 where e1: "h1 = h @ e1"
    and d1: "denotes h1 {length h..<length h1} v1 j" by blast
  from 8(2) [OF p1 [symmetric] p2] obtain e2 where e2: "h2 = h1 @ e2"
    and d2: "denotes_elems h2 {length h1..<length h2} vs2 js" by blast
  from 8(3) p1 p2 have r: "vs = v1 # vs2" "h' = h2" by simp_all
  have "denotes (h1 @ e2) {length h..<length (h1 @ e2)} v1 j"
    using d1 by (rule denotes_region) simp
  moreover have "denotes_elems h2 {length h..<length h2} vs2 js"
    by (rule denotes_frame(2) [OF d2]) (use e1 in auto)
  ultimately have "denotes_elems h' {length h..<length h'} vs (j # js)"
    using r e2 by simp
  moreover have "\<exists>ext. h' = h @ ext" using r e1 e2 by simp
  ultimately show ?case by blast
next
  case (10 k j fs h)
  obtain v1 h1 where p1: "parse j h = (v1, h1)" by (cases "parse j h")
  obtain kvs2 h2 where p2: "parse_fields fs h1 = (kvs2, h2)" by (cases "parse_fields fs h1")
  from 10(1) [OF p1] obtain e1 where e1: "h1 = h @ e1"
    and d1: "denotes h1 {length h..<length h1} v1 j" by blast
  from 10(2) [OF p1 [symmetric] p2] obtain e2 where e2: "h2 = h1 @ e2"
    and d2: "denotes_fields h2 {length h1..<length h2} kvs2 fs" by blast
  from 10(3) p1 p2 have r: "kvs = (k, v1) # kvs2" "h' = h2" by simp_all
  have "denotes (h1 @ e2) {length h..<length (h1 @ e2)} v1 j"
    using d1 by (rule denotes_region) simp
  moreover have "denotes_fields h2 {length h..<length h2} kvs2 fs"
    by (rule denotes_frame(3) [OF d2]) (use e1 in auto)
  ultimately have "denotes_fields h' {length h..<length h'} kvs ((k, j) # fs)"
    using r e2 by simp
  moreover have "\<exists>ext. h' = h @ ext" using r e1 e2 by simp
  ultimately show ?case by blast
qed auto

lemma json_like_deeper: "json_like n h v \<Longrightarrow> n \<le> m \<Longrightarrow> json_like m h v"
proof (induction n arbitrary: m v)
  case 0
  then show ?case by (cases v; cases m) auto
next
  case (Suc n)
  then obtain m' where m: "m = Suc m'" and nm: "n \<le> m'" by (cases m) auto
  show ?case
  proof (cases v)
    case (Ref a)
    with Suc.prems obtain ob where ob: "lookup h a = Some ob"
      by (cases "lookup h a") auto
    show ?thesis
      using Ref Suc.prems(1) ob m Suc.IH [OF _ nm]
      by (cases ob) (auto simp: list_all_iff)
  qed (use Suc.prems m in auto)
qed

lemma denotes_json_like:
  "denotes h A v j \<Longrightarrow> \<exists>n. json_like n h v"
  "denotes_elems h A vs js \<Longrightarrow> \<exists>n. list_all (json_like n h) vs"
  "denotes_fields h A kvs fs \<Longrightarrow> \<exists>n. list_all (\<lambda>(key, v). json_like n h v) kvs"
proof (induction h A v j and h A vs js and h A kvs fs
    rule: denotes_denotes_elems_denotes_fields.induct)
  case (1 h A v)
  then have "json_like 0 h v" by simp
  then show ?case by blast
next
  case (2 h A v b)
  then have "json_like 0 h v" by simp
  then show ?case by blast
next
  case (3 h A v i)
  then have "json_like 0 h v" by simp
  then show ?case by blast
next
  case (4 h A v s)
  then have "json_like 0 h v" by simp
  then show ?case by blast
next
  case (5 h A v js)
  from 5(2) obtain a vs where v: "v = Ref a" "lookup h a = Some (Array vs)"
    and d: "denotes_elems h A vs js"
    by (auto split: val.splits option.splits obj.splits)
  from 5(1) [OF v(1) v(2) refl d] obtain n where "list_all (json_like n h) vs" by blast
  then have "json_like (Suc n) h v" using v by simp
  then show ?case by blast
next
  case (6 h A v fs)
  from 6(2) obtain a kvs where v: "v = Ref a" "lookup h a = Some (Object kvs)"
    and d: "denotes_fields h A kvs fs"
    by (auto split: val.splits option.splits obj.splits)
  from 6(1) [OF v(1) v(2) refl d] obtain n where "list_all (\<lambda>(key, v). json_like n h v) kvs" by blast
  then have "json_like (Suc n) h v" using v by simp
  then show ?case by blast
next
  case (7 h A vs)
  then have "list_all (json_like 0 h) vs" by simp
  then show ?case by blast
next
  case (8 h A vs j js)
  from 8(3) obtain v vs' where vs: "vs = v # vs'" and d: "denotes h A v j" "denotes_elems h A vs' js"
    by (auto split: list.splits)
  from 8(1) [OF vs d(1)] obtain n1 where n1: "json_like n1 h v" by blast
  from 8(2) [OF vs d(2)] obtain n2 where n2: "list_all (json_like n2 h) vs'" by blast
  have "json_like (max n1 n2) h v" using n1 by (rule json_like_deeper) simp
  moreover have "list_all (json_like (max n1 n2) h) vs'"
    using n2 by (auto simp: list_all_iff intro: json_like_deeper)
  ultimately have "list_all (json_like (max n1 n2) h) vs" using vs by simp
  then show ?case by blast
next
  case (9 h A kvs)
  then have "list_all (\<lambda>(key, v). json_like 0 h v) kvs" by simp
  then show ?case by blast
next
  case (10 h A kvs key j fs)
  from 10(3) obtain v kvs' where kvs: "kvs = (key, v) # kvs'"
    and d: "denotes h A v j" "denotes_fields h A kvs' fs"
    by (auto split: list.splits)
  from 10(1) [OF kvs refl d(1)] obtain n1 where n1: "json_like n1 h v" by blast
  from 10(2) [OF kvs refl d(2)] obtain n2 where n2: "list_all (\<lambda>(key, v). json_like n2 h v) kvs'" by blast
  have "json_like (max n1 n2) h v" using n1 by (rule json_like_deeper) simp
  moreover have "list_all (\<lambda>(key, v). json_like (max n1 n2) h v) kvs'"
    using n2 by (auto simp: list_all_iff intro: json_like_deeper)
  ultimately have "list_all (\<lambda>(key, v). json_like (max n1 n2) h v) kvs" using kvs by simp
  then show ?case by blast
qed

lemma cloneState_parses:
  assumes "cloneState P h s = Inr (c, h')"
  shows "\<exists>j. stringify (toISOString P) (stack_depth P) h [] s = Inr (Some j) \<and> parse j h = (c, h')"
  using assms by (auto simp: cloneState_def split: sum.splits option.splits)

lemma cloneState_copies:
  assumes "cloneState P h s = Inr (c, h')"
  shows "\<exists>j ext. stringify (toISOString P) (stack_depth P) h [] s = Inr (Some j) \<and> h' = h @ ext \<and>
           denotes h' {length h..<length h'} c j"
  using cloneState_parses [OF assms] parse_denotes(1) by blast

lemma addState_extends:
  assumes "addState P hist h s lbl now = (r, hist', h')"
  shows "\<exists>ext. h' = h @ ext"
proof (cases "cloneState P h s")
  case (Inl e)
  with assms have "h' = h @ []" by (simp add: addState_def Let_def)
  then show ?thesis by blast
next
  case (Inr p)
  obtain c h1 where p: "p = (c, h1)" by (cases p)
  with Inr assms have "h' = h1" by (simp add: addState_def Let_def)
  with cloneState_copies Inr p show ?thesis by blast
qed

lemma record_state_extends:
  assumes "record_state P T h lbl now = (r, T', h')"
  shows "(\<exists>ext. h' = h @ ext) \<and> store T' = store T"
proof (cases "history T")
  case None
  with assms have "h' = h @ []" "T' = T" by (simp_all add: record_state_def)
  then show ?thesis by blast
next
  case (Some hist)
  obtain r1 hist1 h1 where a: "addState P hist (h @ [Object (signals (store T))]) (Ref (length h)) (Some lbl) now
      = (r1, hist1, h1)"
    by (cases "addState P hist (h @ [Object (signals (store T))]) (Ref (length h)) (Some lbl) now") auto
  from addState_extends [OF a] obtain ext where "h1 = (h @ [Object (signals (store T))]) @ ext"
    by blast
  moreover from assms Some a have "h' = h1" "T' = T\<lparr>history := Some hist1\<rparr>"
    by (simp_all add: record_state_def get_state_def alloc_def)
  ultimately have "h' = h @ ([Object (signals (store T))] @ ext)" "store T' = store T" by simp_all
  then show ?thesis by blast
qed

lemma extends_keeps:
  assumes "\<exists>ext. h' = h @ ext" and "\<forall>a\<in>F. a < length h"
  shows "\<forall>a\<in>F. a < length h' \<and> lookup h' a = lookup h a"
  using assms by (auto simp: lookup_append)

lemma patched_keeps:
  assumes "record_state P (T\<lparr>store := (store T)\<lparr>signals := sg\<rparr>\<rparr>) h lbl now = (r, T', h')"
    and "\<forall>a\<in>F. a < length h"
  shows "\<forall>a\<in>F. a < length h' \<and> lookup h' a = lookup h a"
proof -
  from record_state_extends [OF assms(1)] have e: "\<exists>ext. h' = h @ ext" by simp
  from extends_keeps [OF e assms(2)] show ?thesis .
qed

lemma callMethod_keeps:
  assumes c: "callMethod P T h name args now = (r, T', h')"
    and k: "call_keeps F (T, h) (CallMethod name args now)" and F: "\<forall>a\<in>F. a < length h"
  shows "\<forall>a\<in>F. a < length h' \<and> lookup h' a = lookup h a"
proof (cases "apply_member (member_of (store T) name)")
  case None
  with c have "T' = T" "h' = h" by (simp_all add: callMethod_def)
  with F show ?thesis by simp
next
  case (Some f)
  obtain r1 sg h1 where f: "f args (signals (store T)) h = (r1, sg, h1)"
    by (cases "f args (signals (store T)) h") auto
  have h1: "\<forall>a\<in>F. lookup h1 a = lookup h a"
    using k Some f by simp
  have F1: "\<forall>a\<in>F. a < length h1"
  proof
    fix a
    assume a: "a \<in> F"
    with F have "lookup h a \<noteq> None" by (simp add: lookup_def)
    with h1 a have "lookup h1 a \<noteq> None" by simp
    then show "a < length h1" by (simp add: lookup_def split: if_splits)
  qed
  let ?T1 = "T\<lparr>store := (store T)\<lparr>signals := sg\<rparr>\<rparr>"
  show ?thesis
  proof (cases r1)
    case (Inl e)
    with c Some f have "h' = h1" by (simp add: callMethod_def)
    with F1 h1 show ?thesis by simp
  next
    case (Inr res)
    obtain r2 T2 h2 where rs: "record_state P ?T1 h1 (''callMethod: '' @ key_string name) now = (r2, T2, h2)"
      by (cases "record_state P ?T1 h1 (''callMethod: '' @ key_string name) now") auto
    from patched_keeps [OF rs F1] have
      2: "\<forall>a\<in>F. a < length h2 \<and> lookup h2 a = lookup h1 a" .
    from c Some f Inr rs have "h' = h2"
      by (cases r2) (simp_all add: callMethod_def)
    with 2 h1 show ?thesis by simp
  qed
qed

lemma tester_step_keeps:
  assumes "tester_step P (T, h) op = (T', h')"
    and k: "call_keeps F (T, h) op" and F: "\<forall>a\<in>F. a < length h"
  shows "\<forall>a\<in>F. a < length h' \<and> lookup h' a = lookup h a"
proof (cases op)
  case (SetState partial now)
  with assms(1) obtain r where
    "record_state P (T\<lparr>store := (store T)\<lparr>signals := patch (store T) (signals (store T)) partial\<rparr>\<rparr>)
       h ''setState'' now = (r, T', h')"
    by (cases "setState P T h partial now") (auto simp: setState_def)
  from patched_keeps [OF this F] show ?thesis .
next
  case (PatchState partial now)
  with assms(1) obtain r where
    "record_state P (T\<lparr>store := (store T)\<lparr>signals := patch (store T) (signals (store T)) partial\<rparr>\<rparr>)
       h ''patchState'' now = (r, T', h')"
    by (cases "patchState P T h partial now") (auto simp: patchState_def)
  from patched_keeps [OF this F] show ?thesis .
next
  case (CallMethod name args now)
  with assms(1) obtain r where c: "callMethod P T h name args now = (r, T', h')"
    by (cases "callMethod P T h name args now") auto
  from k CallMethod have "call_keeps F (T, h) (CallMethod name args now)" by simp
  from callMethod_keeps [OF c this F] show ?thesis .
qed

lemma run_tester_keeps:
  "run_keeps P F (T, h) ops \<Longrightarrow> \<forall>a\<in>F. a < length h \<Longrightarrow>
     \<forall>a\<in>F. lookup (snd (run_tester P (T, h) ops)) a = lookup h a"
proof (induction ops arbitrary: T h)
  case Nil
  show ?case by (simp add: run_tester_def)
next
  case (Cons op ops)
  obtain T1 h1 where s: "tester_step P (T, h) op = (T1, h1)"
    by (cases "tester_step P (T, h) op")
  from Cons.prems(1) s have k: "call_keeps F (T, h) op" and r: "run_keeps P F (T1, h1) ops"
    by simp_all
  from tester_step_keeps [OF s k Cons.prems(2)] have
    1: "\<forall>a\<in>F. a < length h1" "\<forall>a\<in>F. lookup h1 a = lookup h a"
    by simp_all
  from Cons.IH [OF r 1(1)] have "\<forall>a\<in>F. lookup (snd (run_tester P (T1, h1) ops)) a = lookup h1 a" .
  with 1(2) s show ?case by (simp add: run_tester_def)
qed

text \<open>
  C10, for a run in which no method of the store writes to an object of the entry. An
  entry is made by the constructor of the log or by \<open>addState\<close>. Its state is what
  \<open>JSON.parse\<close> builds from the JSON document of the state at that moment: a value made
  of new objects only, with no date object, no \<open>undefined\<close> and no function in it; the
  objects there were are left as they were. After any sequence of \<open>setState\<close>,
  \<open>patchState\<close> and \<open>callMethod\<close> in which no call of a method, as it is made in that
  sequence, writes to one of these new objects, the state of the entry is still that
  document, and still has no date object, no \<open>undefined\<close> and no function in it. The
  methods may write to any other object, the objects of the state of the store among
  them.
\<close>

theorem history_entry_deep_copy:
  assumes "new_history P h s now = Inr (hist', h') \<or>
           addState P hist h s lbl now = (None, hist', h')"
  shows "\<exists>e j. last (states hist') = Some e \<and> timestamp e = now \<and>
           stringify (toISOString P) (stack_depth P) h [] s = Inr (Some j) \<and>
           (\<forall>a<length h. lookup h' a = lookup h a) \<and>
           denotes h' {length h..<length h'} (state e) j \<and>
           (\<exists>n. json_like n h' (state e)) \<and>
           (\<forall>T ops. run_keeps P {length h..<length h'} (T, h') ops \<longrightarrow>
              denotes (snd (run_tester P (T, h') ops)) {length h..<length h'} (state e) j \<and>
              (\<exists>n. json_like n (snd (run_tester P (T, h') ops)) (state e)))"
proof -
  have "\<exists>e. last (states hist') = Some e \<and> timestamp e = now \<and> cloneState P h s = Inr (state e, h')"
    using assms
  proof
    assume "new_history P h s now = Inr (hist', h')"
    then show ?thesis
      by (auto simp: new_history_def split: sum.splits)
  next
    assume a: "addState P hist h s lbl now = (None, hist', h')"
    show ?thesis
    proof (cases "cloneState P h s")
      case (Inl x)
      with a show ?thesis by (simp add: addState_def Let_def)
    next
      case (Inr p)
      with a show ?thesis by (cases p) (auto simp: addState_def Let_def)
    qed
  qed
  then obtain e where e: "last (states hist') = Some e" "timestamp e = now"
    and c: "cloneState P h s = Inr (state e, h')" by blast
  from cloneState_copies [OF c] obtain j ext where
    j: "stringify (toISOString P) (stack_depth P) h [] s = Inr (Some j)"
    and x: "h' = h @ ext"
    and d: "denotes h' {length h..<length h'} (state e) j" by blast
  have old: "\<forall>a<length h. lookup h' a = lookup h a"
    using x by (simp add: lookup_append)
  have like: "\<exists>n. json_like n h' (state e)"
    using d by (rule denotes_json_like(1))
  have later: "\<forall>T ops. run_keeps P {length h..<length h'} (T, h') ops \<longrightarrow>
              denotes (snd (run_tester P (T, h') ops)) {length h..<length h'} (state e) j \<and>
              (\<exists>n. json_like n (snd (run_tester P (T, h') ops)) (state e))"
  proof (intro allI impI)
    fix T :: tester and ops
    assume k: "run_keeps P {length h..<length h'} (T, h') ops"
    have "\<forall>a\<in>{length h..<length h'}. lookup (snd (run_tester P (T, h') ops)) a = lookup h' a"
      by (rule run_tester_keeps [OF k]) simp
    then have "denotes (snd (run_tester P (T, h') ops)) {length h..<length h'} (state e) j"
      using denotes_frame(1) [OF d] by blast
    then show "denotes (snd (run_tester P (T, h') ops)) {length h..<length h'} (state e) j \<and>
              (\<exists>n. json_like n (snd (run_tester P (T, h') ops)) (state e))"
      using denotes_json_like(1) by blast
  qed
  show ?thesis
    by (intro exI [of _ e] exI [of _ j] conjI e j old d like later)
qed

lemma box_new_history:
  "new_history demo_platform box_heap (Ref 1) 1000 =
     Inr (box_history, box_heap @ [Object [(Name ''count'', Num (Fin 0))], Object [(Name ''box'', Ref 2)]])"
  by code_simp

lemma repainting_run_keeps:
  "run_keeps demo_platform {2..<4}
     (repainting_tester, box_heap @ [Object [(Name ''count'', Num (Fin 0))], Object [(Name ''box'', Ref 2)]])
     [CallMethod (Name ''repaint'') [] 1001, PatchState [] 1002, CallMethod (Name ''repaint'') [] 1003]"
  by code_simp

theorem history_entry_deep_copy_witness:
  "new_history demo_platform box_heap (Ref 1) 1000 =
     Inr (box_history, box_heap @ [Object [(Name ''count'', Num (Fin 0))], Object [(Name ''box'', Ref 2)]]) \<and>
   run_keeps demo_platform {2..<4}
     (repainting_tester, box_heap @ [Object [(Name ''count'', Num (Fin 0))], Object [(Name ''box'', Ref 2)]])
     [CallMethod (Name ''repaint'') [] 1001, PatchState [] 1002, CallMethod (Name ''repaint'') [] 1003] \<and>
   lookup (snd (run_tester demo_platform
       (repainting_tester, box_heap @ [Object [(Name ''count'', Num (Fin 0))], Object [(Name ''box'', Ref 2)]])
       [CallMethod (Name ''repaint'') [] 1001, PatchState [] 1002, CallMethod (Name ''repaint'') [] 1003])) 0
     = Some (Object [(Name ''count'', Num (Fin 99))]) \<and>
   denotes (snd (run_tester demo_platform
       (repainting_tester, box_heap @ [Object [(Name ''count'', Num (Fin 0))], Object [(Name ''box'', Ref 2)]])
       [CallMethod (Name ''repaint'') [] 1001, PatchState [] 1002, CallMethod (Name ''repaint'') [] 1003]))
     {2..<4} (Ref 3) (JObj [(Name ''box'', JObj [(Name ''count'', JNum 0)])])"
proof -
  let ?h' = "box_heap @ [Object [(Name ''count'', Num (Fin 0))], Object [(Name ''box'', Ref 2)]]"
  let ?ops = "[CallMethod (Name ''repaint'') [] 1001, PatchState [] 1002, CallMethod (Name ''repaint'') [] 1003]"
  have l: "length box_heap = 2" "length ?h' = 4" by (simp_all add: box_heap_def)
  from history_entry_deep_copy [OF disjI1, OF box_new_history] obtain e j where
    e: "last (states box_history) = Some e"
    and j: "stringify (toISOString demo_platform) (stack_depth demo_platform) box_heap [] (Ref 1) = Inr (Some j)"
    and d: "\<forall>T ops. run_keeps demo_platform {length box_heap..<length ?h'} (T, ?h') ops \<longrightarrow>
              denotes (snd (run_tester demo_platform (T, ?h') ops)) {length box_heap..<length ?h'} (state e) j"
    by blast
  from e have se: "state e = Ref 3" by (auto simp: box_history_def)
  have "stringify (toISOString demo_platform) (stack_depth demo_platform) box_heap [] (Ref 1)
          = Inr (Some (JObj [(Name ''box'', JObj [(Name ''count'', JNum 0)])]))"
    by code_simp
  with j have jj: "j = JObj [(Name ''box'', JObj [(Name ''count'', JNum 0)])]" by simp
  have "denotes (snd (run_tester demo_platform (repainting_tester, ?h') ?ops)) {2..<4} (Ref 3)
          (JObj [(Name ''box'', JObj [(Name ''count'', JNum 0)])])"
    using d repainting_run_keeps unfolding l se jj by blast
  moreover have "lookup (snd (run_tester demo_platform (repainting_tester, ?h') ?ops)) 0
     = Some (Object [(Name ''count'', Num (Fin 99))])"
    by code_simp
  ultimately show ?thesis
    using box_new_history repainting_run_keeps by (intro conjI)
qed

text \<open>
  C10, as stated, fails when the store is given an object of the entry: the box of
  the recorded state is patched into the store (\<open>patchState({ box:
  history.currentState.box })\<close>), \<open>repaint\<close> then changes the box of the store in
  place, and the state of the entry is no longer the document it was.
\<close>

theorem history_entry_changed_through_store:
  "new_history demo_platform box_heap (Ref 1) 1000 =
     Inr (box_history, box_heap @ [Object [(Name ''count'', Num (Fin 0))], Object [(Name ''box'', Ref 2)]]) \<and>
   denotes (box_heap @ [Object [(Name ''count'', Num (Fin 0))], Object [(Name ''box'', Ref 2)]])
     {2..<4} (Ref 3) box_document \<and>
   \<not> denotes (snd (run_tester demo_platform
       (repainting_tester, box_heap @ [Object [(Name ''count'', Num (Fin 0))], Object [(Name ''box'', Ref 2)]])
       [PatchState [(Name ''box'', Ref 2)] 1001, CallMethod (Name ''repaint'') [] 1002]))
     {2..<4} (Ref 3) box_document \<and>
   lookup (snd (run_tester demo_platform
       (repainting_tester, box_heap @ [Object [(Name ''count'', Num (Fin 0))], Object [(Name ''box'', Ref 2)]])
       [PatchState [(Name ''box'', Ref 2)] 1001, CallMethod (Name ''repaint'') [] 1002])) 2
     = Some (Object [(Name ''count'', Num (Fin 99))])"
  by code_simp

end
